theory Spec2Isabelle
  imports Main "HOL-Library.Sublist"
begin

section \<open>Strings of the script\<close>

text \<open>
  A JavaScript string is modelled as a \<^typ>\<open>string\<close> whose characters are the code units
  0..255 (ASCII and Latin-1).  In that range \<open>String.prototype.trim\<close> removes TAB, LF, VT,
  FF, CR, SPACE and NBSP.
\<close>

definition nl :: char where
  "nl = CHR ''\<newline>''"

definition is_space :: "char \<Rightarrow> bool" where
  "is_space c \<longleftrightarrow> c \<in> {CHR 0x09, CHR ''\<newline>'', CHR 0x0B, CHR 0x0C, CHR 0x0D, CHR '' '', CHR 0xA0}"

text \<open>\<open>s.trim()\<close>: the white space at the start and at the end is dropped.\<close>

definition trimStart :: "string \<Rightarrow> string" where
  "trimStart s = dropWhile is_space s"

definition trimEnd :: "string \<Rightarrow> string" where
  "trimEnd s = rev (dropWhile is_space (rev s))"

definition trim :: "string \<Rightarrow> string" where
  "trim s = trimEnd (trimStart s)"

text \<open>
  \<open>s.toLowerCase()\<close> on the code units 0..255: the letters A..Z and the capital letters
  of Latin-1 (0xC0..0xDE without the multiplication sign 0xD7) move up by 32.
\<close>

definition upper_chars :: string where
  "upper_chars = ''ABCDEFGHIJKLMNOPQRSTUVWXYZ'' @
     [CHR 0xC0, CHR 0xC1, CHR 0xC2, CHR 0xC3, CHR 0xC4, CHR 0xC5, CHR 0xC6, CHR 0xC7, CHR
      0xC8, CHR 0xC9, CHR 0xCA, CHR 0xCB, CHR 0xCC, CHR 0xCD, CHR 0xCE, CHR 0xCF, CHR
      0xD0, CHR 0xD1, CHR 0xD2, CHR 0xD3, CHR 0xD4, CHR 0xD5, CHR 0xD6, CHR 0xD8, CHR
      0xD9, CHR 0xDA, CHR 0xDB, CHR 0xDC, CHR 0xDD, CHR 0xDE]"

definition lower_chars :: string where
  "lower_chars = ''abcdefghijklmnopqrstuvwxyz'' @
     [CHR 0xE0, CHR 0xE1, CHR 0xE2, CHR 0xE3, CHR 0xE4, CHR 0xE5, CHR 0xE6, CHR 0xE7, CHR
      0xE8, CHR 0xE9, CHR 0xEA, CHR 0xEB, CHR 0xEC, CHR 0xED, CHR 0xEE, CHR 0xEF, CHR
      0xF0, CHR 0xF1, CHR 0xF2, CHR 0xF3, CHR 0xF4, CHR 0xF5, CHR 0xF6, CHR 0xF8, CHR
      0xF9, CHR 0xFA, CHR 0xFB, CHR 0xFC, CHR 0xFD, CHR 0xFE]"

definition lower_char :: "char \<Rightarrow> char" where
  "lower_char c = (case map_of (zip upper_chars lower_chars) c of None \<Rightarrow> c | Some l \<Rightarrow> l)"

definition toLowerCase :: "string \<Rightarrow> string" where
  "toLowerCase s = map lower_char s"

text \<open>\<open>xs.join(sep)\<close>\<close>

fun join :: "string \<Rightarrow> string list \<Rightarrow> string" where
  "join sep [] = []"
| "join sep [x] = x"
| "join sep (x # y # ys) = x @ sep @ join sep (y # ys)"

text \<open>
  The pieces of a string between its separator characters, as \<open>s.split("\n")\<close>
  cuts it: the empty string gives one empty piece.
\<close>

fun split_on :: "(char \<Rightarrow> bool) \<Rightarrow> string \<Rightarrow> string list" where
  "split_on sep [] = [[]]"
| "split_on sep (c # cs) =
     (if sep c then [] # split_on sep cs
      else (case split_on sep cs of [] \<Rightarrow> [[c]] | p # ps \<Rightarrow> (c # p) # ps))"

text \<open>
  \<open>s.replace(/\n{3,}/g, "\n\n")\<close>: the scan goes left to right; where three or more
  newlines start, the whole (greedy) run is replaced by two newlines and the scan resumes
  after the run; elsewhere the character is copied.
\<close>

function replace_nl3 :: "string \<Rightarrow> string" where
  "replace_nl3 [] = []"
| "replace_nl3 (c # cs) =
     (if 3 \<le> length (takeWhile (\<lambda>x. x = nl) (c # cs))
      then nl # nl # replace_nl3 (dropWhile (\<lambda>x. x = nl) (c # cs))
      else c # replace_nl3 cs)"
  by pat_completeness auto
termination
proof (relation "measure length")
  show "wf (measure length)" by simp
next
  fix c :: char and cs :: string
  assume h: "3 \<le> length (takeWhile (\<lambda>x. x = nl) (c # cs))"
  have "c = nl" using h by (auto split: if_splits)
  then have "dropWhile (\<lambda>x. x = nl) (c # cs) = dropWhile (\<lambda>x. x = nl) cs" by simp
  then have "length (dropWhile (\<lambda>x. x = nl) (c # cs)) \<le> length cs"
    by (simp add: length_dropWhile_le)
  then show "(dropWhile (\<lambda>x. x = nl) (c # cs), c # cs) \<in> measure length" by simp
next
  fix c :: char and cs :: string
  show "(cs, c # cs) \<in> measure length" by simp
qed

text \<open>The decimal numeral of a number, as \<open>idx + ". "\<close> concatenates it.\<close>

fun string_of_nat :: "nat \<Rightarrow> string" where
  "string_of_nat n =
     (if n < 10 then [''0123456789'' ! n]
      else string_of_nat (n div 10) @ [''0123456789'' ! (n mod 10)])"

text \<open>\<open>\w\<close> of a regular expression: letters, digits and underscore.\<close>

definition is_word :: "char \<Rightarrow> bool" where
  "is_word c \<longleftrightarrow>
     c \<in> set ''abcdefghijklmnopqrstuvwxyzABCDEFGHIJKLMNOPQRSTUVWXYZ0123456789_''"

text \<open>
  \<open>cls.match(/language-(\w+)/)\<close>: the leftmost place where \<open>language-\<close> is followed by
  at least one word character; the group is the longest run of word characters there.
\<close>

fun match_language :: "string \<Rightarrow> string option" where
  "match_language [] = None"
| "match_language (c # cs) =
     (if prefix ''language-'' (c # cs) \<and> takeWhile is_word (drop 9 (c # cs)) \<noteq> []
      then Some (takeWhile is_word (drop 9 (c # cs)))
      else match_language cs)"

section \<open>The document tree\<close>

text \<open>
  A node of the DOM: a text node, a node of another kind (comment, processing instruction),
  or an element with its \<open>tagName\<close>, its attributes (name and value), the declarations of
  its inline \<open>style\<close> and its \<open>childNodes\<close>.  The elements are those of an HTML page: every
  element has a \<open>style\<close> and a \<open>className\<close> that is a string, attribute names are unique in an
  element (a list that repeats a name is read as its first entry and loses every entry of a
  removed name), and a type selector written in lower case matches an element when
  \<open>tagName.toLowerCase()\<close> is equal to it.
\<close>

datatype node =
    Text string
  | Comment string
  | Element string "(string \<times> string) list" "(string \<times> string) list" "node list"

text \<open>The page: the children of \<open>document\<close> and \<open>window.location.href\<close>.\<close>

record page =
  document :: "node list"
  location_href :: string

fun is_element :: "node \<Rightarrow> bool" where
  "is_element (Element _ _ _ _) = True"
| "is_element _ = False"

text \<open>\<open>node.tagName.toLowerCase()\<close>\<close>

fun tag_of :: "node \<Rightarrow> string" where
  "tag_of (Element tn _ _ _) = toLowerCase tn"
| "tag_of _ = []"

fun childNodes :: "node \<Rightarrow> node list" where
  "childNodes (Element _ _ _ cs) = cs"
| "childNodes _ = []"

text \<open>\<open>el.getAttribute(name)\<close>\<close>

fun getAttribute :: "node \<Rightarrow> string \<Rightarrow> string option" where
  "getAttribute (Element _ as _ _) name = map_of as name"
| "getAttribute _ name = None"

text \<open>\<open>el.removeAttribute(name)\<close>\<close>

fun removeAttribute :: "string \<Rightarrow> node \<Rightarrow> node" where
  "removeAttribute name (Element tn as st cs) = Element tn (filter (\<lambda>(a, v). a \<noteq> name) as) st cs"
| "removeAttribute name n = n"

text \<open>\<open>el.style.removeProperty(name)\<close>\<close>

fun removeProperty :: "string \<Rightarrow> node \<Rightarrow> node" where
  "removeProperty name (Element tn as st cs) = Element tn as (filter (\<lambda>(p, v). p \<noteq> name) st) cs"
| "removeProperty name n = n"

text \<open>
  \<open>node.textContent\<close>: the data of a text node; for an element the data of all the text
  nodes below it, in tree order (other nodes contribute nothing).
\<close>

fun textContent :: "node \<Rightarrow> string" where
  "textContent (Text s) = s"
| "textContent (Comment s) = []"
| "textContent (Element _ _ _ cs) = concat (map textContent cs)"

text \<open>\<open>el.className\<close>: the value of the class attribute, empty when there is none.\<close>

definition className :: "node \<Rightarrow> string" where
  "className n = (case getAttribute n ''class'' of None \<Rightarrow> [] | Some v \<Rightarrow> v)"

text \<open>The tokens of a class attribute: it is split at ASCII whitespace.\<close>

definition is_ascii_space :: "char \<Rightarrow> bool" where
  "is_ascii_space c \<longleftrightarrow> c \<in> {CHR 0x09, CHR ''\<newline>'', CHR 0x0C, CHR 0x0D, CHR '' ''}"

definition tokens :: "string \<Rightarrow> string list" where
  "tokens s = filter (\<lambda>t. t \<noteq> []) (split_on is_ascii_space s)"

section \<open>Selectors and queries\<close>

text \<open>
  The compound selectors the script uses: a type selector (\<open>nav\<close>), an attribute selector
  with a value (\<open>[role="tabpanel"]\<close>), a class selector (\<open>.sr-only\<close>) and a selector list
  (\<open>th, td\<close>).
\<close>

datatype selector =
    Tag string
  | AttrEq string string
  | Class string
  | Or selector selector

fun matches :: "selector \<Rightarrow> node \<Rightarrow> bool" where
  "matches (Tag t) n = (is_element n \<and> tag_of n = t)"
| "matches (AttrEq a v) n = (getAttribute n a = Some v)"
| "matches (Class c) n = (is_element n \<and> c \<in> set (tokens (className n)))"
| "matches (Or s1 s2) n = (matches s1 n \<or> matches s2 n)"

text \<open>The elements below a node, in tree order (the node itself is not one of them).\<close>

fun descendants :: "node \<Rightarrow> node list" where
  "descendants (Element _ _ _ cs) =
     concat (map (\<lambda>c. (if is_element c then [c] else []) @ descendants c) cs)"
| "descendants _ = []"

text \<open>\<open>el.querySelectorAll(sel)\<close> and \<open>el.querySelector(sel)\<close>\<close>

definition querySelectorAll :: "selector \<Rightarrow> node \<Rightarrow> node list" where
  "querySelectorAll sel n = filter (matches sel) (descendants n)"

definition querySelector :: "selector \<Rightarrow> node \<Rightarrow> node option" where
  "querySelector sel n = (case querySelectorAll sel n of [] \<Rightarrow> None | e # _ \<Rightarrow> Some e)"

text \<open>The elements of the document, in tree order.\<close>

definition doc_elements :: "node list \<Rightarrow> node list" where
  "doc_elements ns = concat (map (\<lambda>c. (if is_element c then [c] else []) @ descendants c) ns)"

text \<open>\<open>document.querySelector(sel)\<close> for a compound selector\<close>

definition doc_querySelector :: "selector \<Rightarrow> node list \<Rightarrow> node option" where
  "doc_querySelector sel ns =
     (case filter (matches sel) (doc_elements ns) of [] \<Rightarrow> None | e # _ \<Rightarrow> Some e)"

text \<open>\<open>document.getElementById(id)\<close>\<close>

definition getElementById :: "string \<Rightarrow> node list \<Rightarrow> node option" where
  "getElementById i ns = doc_querySelector (AttrEq ''id'' i) ns"

text \<open>
  The elements that match \<open>anc sub\<close> (a descendant combinator), in tree order: those that
  match \<open>sub\<close> and lie below an element that matches \<open>anc\<close>.  The flag says whether such an
  ancestor has been passed.
\<close>

fun below :: "selector \<Rightarrow> selector \<Rightarrow> bool \<Rightarrow> node \<Rightarrow> node list" where
  "below anc sub inside (Element tn as st cs) =
     (if inside \<and> matches sub (Element tn as st cs) then [Element tn as st cs] else [])
     @ concat (map (below anc sub (inside \<or> matches anc (Element tn as st cs))) cs)"
| "below anc sub inside _ = []"

text \<open>\<open>document.querySelector("anc sub")\<close>\<close>

definition doc_querySelector_below :: "selector \<Rightarrow> selector \<Rightarrow> node list \<Rightarrow> node option" where
  "doc_querySelector_below anc sub ns =
     (case concat (map (below anc sub False) ns) of [] \<Rightarrow> None | e # _ \<Rightarrow> Some e)"

section \<open>The extraction\<close>

text \<open>
  \<open>root.cloneNode(true)\<close>: a deep copy.  On trees as values the copy is the tree itself;
  the changes below are made to the copy.
\<close>

definition cloneNode :: "node \<Rightarrow> node" where
  "cloneNode n = n"

text \<open>
  \<open>clone.querySelectorAll(...).forEach(...)\<close> where the callback changes the attributes
  and the style of the element it is given, when \<open>P\<close> holds of it: every element below
  the clone is visited, the clone itself is not.
\<close>

fun update_below :: "(node \<Rightarrow> bool) \<Rightarrow> (node \<Rightarrow> node) \<Rightarrow> node \<Rightarrow> node" where
  "update_below P f (Element tn as st cs) =
     Element tn as st (map (\<lambda>c. if P c then f (update_below P f c) else update_below P f c) cs)"
| "update_below P f n = n"

definition unhide :: "node \<Rightarrow> node" where
  "unhide el = removeProperty ''display'' (removeAttribute ''hidden'' (removeAttribute ''aria-hidden'' el))"

text \<open>1. Standard \<open>role="tabpanel"\<close> panels\<close>

definition reveal_tabpanels :: "node \<Rightarrow> node" where
  "reveal_tabpanels clone = update_below (matches (AttrEq ''role'' ''tabpanel'')) unhide clone"

text \<open>2. Any other hidden element that contains a code block\<close>

definition has_pre :: "node \<Rightarrow> bool" where
  "has_pre el \<longleftrightarrow> querySelector (Tag ''pre'') el \<noteq> None \<or> tag_of el = ''pre''"

definition reveal_code :: "node \<Rightarrow> node" where
  "reveal_code clone =
     update_below (\<lambda>el. matches (AttrEq ''aria-hidden'' ''true'') el \<and> has_pre el) unhide clone"

text \<open>
  \<open>clone.querySelectorAll(sel).forEach(el => el.remove())\<close>: every element below the clone
  that matches is taken out with its subtree.
\<close>

fun remove_matching :: "selector \<Rightarrow> node \<Rightarrow> node" where
  "remove_matching sel (Element tn as st cs) =
     Element tn as st (map (remove_matching sel) (filter (\<lambda>c. \<not> matches sel c) cs))"
| "remove_matching sel n = n"

definition selectors :: "selector list" where
  "selectors =
     [Tag ''nav'', Tag ''header'', Tag ''footer'', AttrEq ''aria-hidden'' ''true'',
      Class ''copy-for-llm-btn-wrapper'', Tag ''button'', Tag ''svg'', Class ''sr-only'',
      AttrEq ''data-testid'' ''table-of-contents'']"

definition strip :: "node \<Rightarrow> node" where
  "strip clone = foldl (\<lambda>c sel. remove_matching sel c) clone selectors"

text \<open>The three steps on the clone, in the order of the script.\<close>

definition clean :: "node \<Rightarrow> node" where
  "clean root = strip (reveal_code (reveal_tabpanels (cloneNode root)))"

text \<open>\<open>/^h[2-6]$/.test(tag)\<close> and \<open>parseInt(tag[1], 10)\<close>\<close>

definition heading_level :: "string \<Rightarrow> nat option" where
  "heading_level tag =
     (case tag of
        [h, d] \<Rightarrow>
          if h = CHR ''h''
          then map_of [(CHR ''2'', 2), (CHR ''3'', 3), (CHR ''4'', 4), (CHR ''5'', 5), (CHR ''6'', 6)] d
          else None
      | _ \<Rightarrow> None)"

text \<open>The fragments of a \<open>pre\<close> element.\<close>

definition pre_lang :: "node \<Rightarrow> string" where
  "pre_lang node =
     (case querySelector (Tag ''code'') node of
        None \<Rightarrow> []
      | Some codeEl \<Rightarrow> (case match_language (className codeEl) of None \<Rightarrow> [] | Some l \<Rightarrow> l))"

definition pre_code :: "node \<Rightarrow> string" where
  "pre_code node =
     trim (textContent (case querySelector (Tag ''code'') node of None \<Rightarrow> node | Some codeEl \<Rightarrow> codeEl))"

definition pre_lines :: "node \<Rightarrow> string list" where
  "pre_lines node = [[], ''```'' @ pre_lang node, pre_code node, ''```'', []]"

text \<open>The fragments of a \<open>table\<close> element: \<open>rows.forEach(function (row, ri) ...)\<close>.\<close>

definition row_vals :: "node \<Rightarrow> string list" where
  "row_vals row = map (\<lambda>c. trim (textContent c)) (querySelectorAll (Or (Tag ''th'') (Tag ''td'')) row)"

fun table_rows :: "nat \<Rightarrow> node list \<Rightarrow> string list" where
  "table_rows ri [] = []"
| "table_rows ri (row # rows) =
     (''| '' @ join '' | '' (row_vals row) @ '' |'')
     # (if ri = 0 then [''| '' @ join '' | '' (map (\<lambda>_. ''---'') (row_vals row)) @ '' |''] else [])
     @ table_rows (Suc ri) rows"

definition table_lines :: "node \<Rightarrow> string list" where
  "table_lines node = table_rows 0 (querySelectorAll (Tag ''tr'') node) @ [[]]"

text \<open>The fragments of a \<open>blockquote\<close> element.\<close>

definition blockquote_lines :: "node \<Rightarrow> string list" where
  "blockquote_lines node =
     [[], join [nl] (map (\<lambda>l. ''> '' @ l) (split_on (\<lambda>c. c = nl) (trim (textContent node)))), []]"

text \<open>
  \<open>walk(node, depth)\<close>.  The result is the list of the fragments that the call pushes on
  \<open>lines\<close>, in order.  \<open>ptag\<close> is \<open>node.parentElement.tagName.toLowerCase()\<close> and \<open>idx\<close> is
  \<open>Array.from(parent.children).indexOf(node)\<close>: the walk is only called on nodes below the
  clone, so the parent element exists.  \<open>depth\<close> is never read and is left out.
\<close>

fun walk :: "string \<Rightarrow> nat \<Rightarrow> node \<Rightarrow> string list"
and walk_nodes :: "string \<Rightarrow> nat \<Rightarrow> node list \<Rightarrow> string list" where
  "walk ptag idx (Text txt) = (if trim txt \<noteq> [] then [txt] else [])"
| "walk ptag idx (Comment d) = []"
| "walk ptag idx (Element tn as st cs) =
     (case heading_level (toLowerCase tn) of
        Some level \<Rightarrow>
          [[], replicate level (CHR ''#'') @ '' '' @ trim (textContent (Element tn as st cs)), []]
      | None \<Rightarrow>
          if toLowerCase tn = ''pre'' then pre_lines (Element tn as st cs)
          else if toLowerCase tn = ''code'' \<and> ptag \<noteq> ''pre''
            then [''`'' @ trim (textContent (Element tn as st cs)) @ ''`'']
          else if toLowerCase tn = ''p'' then [] # walk_nodes (toLowerCase tn) 0 cs @ [[]]
          else if toLowerCase tn = ''li''
            then [(if ptag = ''ol'' then string_of_nat (idx + 1) @ ''. '' else ''- '')
                  @ trim (textContent (Element tn as st cs))]
          else if toLowerCase tn = ''table'' then table_lines (Element tn as st cs)
          else if toLowerCase tn = ''blockquote'' then blockquote_lines (Element tn as st cs)
          else if toLowerCase tn = ''strong'' \<or> toLowerCase tn = ''b''
            then [''**'' @ trim (textContent (Element tn as st cs)) @ ''**'']
          else if toLowerCase tn = ''a''
            then [''['' @ trim (textContent (Element tn as st cs)) @ '']('' @
                  (case map_of as ''href'' of None \<Rightarrow> [] | Some h \<Rightarrow> h) @ '')'']
          else walk_nodes (toLowerCase tn) 0 cs)"
| "walk_nodes ptag k [] = []"
| "walk_nodes ptag k (c # cs) =
     walk ptag k c @ walk_nodes ptag (if is_element c then Suc k else k) cs"

text \<open>
  The loop over \<open>clone.children\<close> (the element children): a child whose tag is \<open>h1\<close> is
  skipped, the others are walked.
\<close>

fun walk_children :: "string \<Rightarrow> nat \<Rightarrow> node list \<Rightarrow> string list" where
  "walk_children ptag k [] = []"
| "walk_children ptag k (c # cs) =
     (if is_element c
      then (if tag_of c = ''h1'' then [] else walk ptag k c) @ walk_children ptag (Suc k) cs
      else walk_children ptag k cs)"

text \<open>The content root: the first of three queries that finds an element.\<close>

definition find_root :: "node list \<Rightarrow> node option" where
  "find_root doc =
     (case doc_querySelector (Tag ''article'') doc of
        Some r \<Rightarrow> Some r
      | None \<Rightarrow>
          (case getElementById ''content-area'' doc of
             Some r \<Rightarrow> Some r
           | None \<Rightarrow> doc_querySelector (Tag ''main'') doc))"

text \<open>The title element: the first of three queries on the document that finds one.\<close>

definition find_title :: "node list \<Rightarrow> node option" where
  "find_title doc =
     (case doc_querySelector_below (Tag ''article'') (Tag ''h1'') doc of
        Some t \<Rightarrow> Some t
      | None \<Rightarrow>
          (case doc_querySelector_below (Tag ''main'') (Tag ''h1'') doc of
             Some t \<Rightarrow> Some t
           | None \<Rightarrow> doc_querySelector (Tag ''h1'') doc))"

definition title_lines :: "node list \<Rightarrow> string list" where
  "title_lines doc =
     (case find_title doc of None \<Rightarrow> [] | Some titleEl \<Rightarrow> [''# '' @ trim (textContent titleEl), []])"

text \<open>The fragments pushed on \<open>lines\<close> for a page whose content root is \<open>root\<close>.\<close>

definition page_lines :: "node list \<Rightarrow> node \<Rightarrow> string list" where
  "page_lines doc root =
     title_lines doc @ walk_children (tag_of (clean root)) 0 (childNodes (clean root))"

text \<open>\<open>lines.join("\n").replace(/\n{3,}/g, "\n\n").trim()\<close>\<close>

definition post :: "string list \<Rightarrow> string" where
  "post lines = trim (replace_nl3 (join [nl] lines))"

definition extractPageText :: "page \<Rightarrow> string" where
  "extractPageText pg =
     (case find_root (document pg) of
        None \<Rightarrow> []
      | Some root \<Rightarrow>
          ''Source: '' @ location_href pg @ [nl, nl] @ post (page_lines (document pg) root))"

section \<open>The document as a store of objects\<close>

text \<open>
  For the effects of the extraction the nodes are objects with an identity: every object
  carries its address, a reference held by the script is an address, and a method called on
  a reference acts on the object with that address, wherever it is.  The state holds the
  live tree (the children of \<open>document\<close>) and the trees that are not attached to it.
\<close>

type_synonym ref = nat

datatype obj =
    TextObj ref string
  | CommentObj ref string
  | ElementObj ref string "(string \<times> string) list" "(string \<times> string) list" "obj list"

fun addr :: "obj \<Rightarrow> ref" where
  "addr (TextObj a _) = a"
| "addr (CommentObj a _) = a"
| "addr (ElementObj a _ _ _ _) = a"

text \<open>The node an object stands for: the addresses are forgotten.\<close>

fun erase :: "obj \<Rightarrow> node" where
  "erase (TextObj a s) = Text s"
| "erase (CommentObj a s) = Comment s"
| "erase (ElementObj a tn as st cs) = Element tn as st (map erase cs)"

text \<open>An object with all the objects below it, in tree order.\<close>

fun objs :: "obj \<Rightarrow> obj list" where
  "objs (ElementObj a tn as st cs) = ElementObj a tn as st cs # concat (map objs cs)"
| "objs n = [n]"

fun children :: "obj \<Rightarrow> obj list" where
  "children (ElementObj _ _ _ _ cs) = cs"
| "children _ = []"

definition objs_below :: "obj \<Rightarrow> obj list" where
  "objs_below n = concat (map objs (children n))"

record store =
  live :: "obj list"
  detached :: "obj list"

definition all_objs :: "store \<Rightarrow> obj list" where
  "all_objs s = concat (map objs (live s @ detached s))"

text \<open>The object a reference points to.\<close>

definition lookup :: "ref \<Rightarrow> store \<Rightarrow> obj option" where
  "lookup r s = find (\<lambda>n. addr n = r) (all_objs s)"

text \<open>An address that is not in use: above every address of the state.\<close>

definition fresh :: "store \<Rightarrow> ref" where
  "fresh s = fold (\<lambda>n m. max (Suc (addr n)) m) (all_objs s) 0"

text \<open>
  \<open>n.cloneNode(true)\<close>: a deep copy made of new objects, with the addresses from \<open>a\<close> on;
  the copy has no parent, it is a detached tree.  The result is the reference to the copy.
\<close>

fun copy :: "ref \<Rightarrow> obj \<Rightarrow> obj \<times> ref"
and copy_list :: "ref \<Rightarrow> obj list \<Rightarrow> obj list \<times> ref" where
  "copy a (TextObj _ s) = (TextObj a s, Suc a)"
| "copy a (CommentObj _ s) = (CommentObj a s, Suc a)"
| "copy a (ElementObj _ tn as st cs) =
     (case copy_list (Suc a) cs of (cs', a') \<Rightarrow> (ElementObj a tn as st cs', a'))"
| "copy_list a [] = ([], a)"
| "copy_list a (c # cs) =
     (case copy a c of (c', a1) \<Rightarrow> (case copy_list a1 cs of (cs', a2) \<Rightarrow> (c' # cs', a2)))"

definition cloneNode_at :: "obj \<Rightarrow> store \<Rightarrow> ref \<times> store" where
  "cloneNode_at n s = (fresh s, s\<lparr>detached := detached s @ [fst (copy (fresh s) n)]\<rparr>)"

text \<open>A change of the object with address \<open>r\<close>, in a tree and in the whole state.\<close>

fun update_at :: "ref \<Rightarrow> (obj \<Rightarrow> obj) \<Rightarrow> obj \<Rightarrow> obj" where
  "update_at r f (ElementObj a tn as st cs) =
     (if a = r then f (ElementObj a tn as st cs)
      else ElementObj a tn as st (map (update_at r f) cs))"
| "update_at r f n = (if addr n = r then f n else n)"

definition update_store :: "ref \<Rightarrow> (obj \<Rightarrow> obj) \<Rightarrow> store \<Rightarrow> store" where
  "update_store r f s =
     s\<lparr>live := map (update_at r f) (live s), detached := map (update_at r f) (detached s)\<rparr>"

text \<open>\<open>el.removeAttribute(name)\<close> and \<open>el.style.removeProperty(name)\<close> on an object.\<close>

fun removeAttribute_obj :: "string \<Rightarrow> obj \<Rightarrow> obj" where
  "removeAttribute_obj name (ElementObj a tn as st cs) =
     ElementObj a tn (filter (\<lambda>(k, v). k \<noteq> name) as) st cs"
| "removeAttribute_obj name n = n"

fun removeProperty_obj :: "string \<Rightarrow> obj \<Rightarrow> obj" where
  "removeProperty_obj name (ElementObj a tn as st cs) =
     ElementObj a tn as (filter (\<lambda>(p, v). p \<noteq> name) st) cs"
| "removeProperty_obj name n = n"

text \<open>The three calls of the callbacks of the pre-clean phase, on the element \<open>el\<close>.\<close>

definition unhide_at :: "ref \<Rightarrow> store \<Rightarrow> store" where
  "unhide_at el s =
     update_store el (removeProperty_obj ''display'')
       (update_store el (removeAttribute_obj ''hidden'')
          (update_store el (removeAttribute_obj ''aria-hidden'') s))"

text \<open>\<open>clone.querySelectorAll(sel)\<close>: the references to the matching elements below \<open>r\<close>.\<close>

definition querySelectorAll_at :: "selector \<Rightarrow> ref \<Rightarrow> store \<Rightarrow> ref list" where
  "querySelectorAll_at sel r s =
     (case lookup r s of
        None \<Rightarrow> []
      | Some n \<Rightarrow> map addr (filter (\<lambda>e. matches sel (erase e)) (objs_below n)))"

text \<open>\<open>el.querySelector("pre") || el.tagName.toLowerCase() === "pre"\<close>\<close>

definition has_pre_at :: "ref \<Rightarrow> store \<Rightarrow> bool" where
  "has_pre_at el s = (case lookup el s of None \<Rightarrow> False | Some n \<Rightarrow> has_pre (erase n))"

text \<open>
  \<open>el.remove()\<close>: the object leaves the children of its parent and becomes a detached tree;
  nothing happens when it has no parent.
\<close>

fun cut :: "ref \<Rightarrow> obj \<Rightarrow> obj" where
  "cut r (ElementObj a tn as st cs) =
     ElementObj a tn as st (map (cut r) (filter (\<lambda>c. addr c \<noteq> r) cs))"
| "cut r n = n"

definition remove_at :: "ref \<Rightarrow> store \<Rightarrow> store" where
  "remove_at el s =
     (case lookup el s of
        None \<Rightarrow> s
      | Some n \<Rightarrow>
          if el \<in> set (map addr (detached s)) then s
          else s\<lparr>live := map (cut el) (filter (\<lambda>c. addr c \<noteq> el) (live s)),
                 detached := map (cut el) (detached s) @ [n]\<rparr>)"

text \<open>The loops of the script on the clone (lines 35 to 66), as changes of the state.\<close>

definition reveal_tabpanels_at :: "ref \<Rightarrow> store \<Rightarrow> store" where
  "reveal_tabpanels_at clone s =
     fold unhide_at (querySelectorAll_at (AttrEq ''role'' ''tabpanel'') clone s) s"

definition reveal_code_at :: "ref \<Rightarrow> store \<Rightarrow> store" where
  "reveal_code_at clone s =
     fold (\<lambda>el s'. if has_pre_at el s' then unhide_at el s' else s')
       (querySelectorAll_at (AttrEq ''aria-hidden'' ''true'') clone s) s"

definition strip_at :: "ref \<Rightarrow> store \<Rightarrow> store" where
  "strip_at clone s =
     fold (\<lambda>sel s'. fold remove_at (querySelectorAll_at sel clone s') s') selectors s"

text \<open>The content root, as an object of the live tree.\<close>

definition find_root_at :: "store \<Rightarrow> obj option" where
  "find_root_at s =
     (let els = filter (\<lambda>e. is_element (erase e)) (concat (map objs (live s))) in
      case find (\<lambda>e. matches (Tag ''article'') (erase e)) els of
        Some r \<Rightarrow> Some r
      | None \<Rightarrow>
          (case find (\<lambda>e. matches (AttrEq ''id'' ''content-area'') (erase e)) els of
             Some r \<Rightarrow> Some r
           | None \<Rightarrow> find (\<lambda>e. matches (Tag ''main'') (erase e)) els))"

text \<open>
  The state after the part of \<open>extractPageText\<close> that changes objects: the clone, the
  pre-clean phase and the strip phase.  What follows (the title lookup, the walk, the
  post-processing) reads the document and builds strings.
\<close>

definition extract_store :: "store \<Rightarrow> store" where
  "extract_store s =
     (case find_root_at s of
        None \<Rightarrow> s
      | Some root \<Rightarrow>
          (case cloneNode_at root s of
             (clone, s1) \<Rightarrow> strip_at clone (reveal_code_at clone (reveal_tabpanels_at clone s1))))"

section \<open>Notions used in the proofs\<close>



text \<open>
  The objects that existed before are those of \<open>L\<close> and \<open>D\<close>, with addresses below \<open>f\<close>; the state
  keeps them as they are, and every other object has an address from \<open>f\<close> on.
\<close>

definition old_below :: "ref \<Rightarrow> obj list \<Rightarrow> bool" where
  "old_below f os \<longleftrightarrow> (\<forall>t\<in>set os. \<forall>n\<in>set (objs t). addr n < f)"

definition new_from :: "ref \<Rightarrow> obj list \<Rightarrow> bool" where
  "new_from f os \<longleftrightarrow> (\<forall>t\<in>set os. \<forall>n\<in>set (objs t). f \<le> addr n)"

definition kept :: "ref \<Rightarrow> obj list \<Rightarrow> obj list \<Rightarrow> store \<Rightarrow> bool" where
  "kept f L D s \<longleftrightarrow> live s = L \<and> (\<exists>new. detached s = D @ new \<and> new_from f new)"

text \<open>
  The walk, called on an element whose parent has the tag \<open>ptag\<close>, goes on to the children
  of the element: for a paragraph, and in the last case of \<open>walk\<close>, that is when the tag is
  none of those with a case of their own.
\<close>

definition recurses :: "string \<Rightarrow> node \<Rightarrow> bool" where
  "recurses ptag n \<longleftrightarrow>
     is_element n \<and> heading_level (tag_of n) = None \<and>
     tag_of n \<notin> set [''pre'', ''li'', ''table'', ''blockquote'', ''strong'', ''b'', ''a''] \<and>
     \<not> (tag_of n = ''code'' \<and> ptag \<noteq> ''pre'')"

text \<open>
  The nodes on which \<open>walk\<close> is called in the course of the call on a node: the node
  itself and, when the walk goes on to its children, the nodes of the calls on them.
\<close>

fun walked :: "string \<Rightarrow> node \<Rightarrow> node list" where
  "walked ptag (Element tn as st cs) =
     Element tn as st cs #
     (if recurses ptag (Element tn as st cs) then concat (map (walked (toLowerCase tn)) cs) else [])"
| "walked ptag n = [n]"

text \<open>The nodes on which \<open>walk\<close> is called from the loop over \<open>clone.children\<close>.\<close>

definition walked_children :: "node \<Rightarrow> node list" where
  "walked_children clone =
     concat (map (walked (tag_of clone))
       (filter (\<lambda>c. is_element c \<and> tag_of c \<noteq> ''h1'') (childNodes clone)))"







text \<open>The first element of a list, when there is one.\<close>

definition first_of :: "'a list \<Rightarrow> 'a option" where
  "first_of xs = (case xs of [] \<Rightarrow> None | x # _ \<Rightarrow> Some x)"

text \<open>The \<open>h1\<close> elements below the elements with the tag \<open>t\<close>, element by element.\<close>

definition h1s_below :: "string \<Rightarrow> node list \<Rightarrow> node list" where
  "h1s_below t doc =
     filter (\<lambda>e. tag_of e = ''h1'')
       (concat (map descendants (filter (\<lambda>e. tag_of e = t) (doc_elements doc))))"

section \<open>Example pages and states\<close>

text \<open>An example state.\<close>

definition live_example :: "obj list" where
  "live_example =
     [ElementObj 0 ''HTML'' [] []
        [ElementObj 1 ''BODY'' [] []
           [ElementObj 2 ''ARTICLE'' [] []
              [ElementObj 3 ''NAV'' [] [] [TextObj 4 ''menu''],
               ElementObj 5 ''DIV'' [(''role'', ''tabpanel''), (''aria-hidden'', ''true'')] []
                 [ElementObj 6 ''PRE'' [] [] [TextObj 7 ''x'']]]]]]"

definition store_example :: store where
  "store_example = \<lparr>live = live_example, detached = []\<rparr>"

definition html :: "node list \<Rightarrow> node list" where
  "html body = [Element ''HTML'' [] [] [Element ''HEAD'' [] [] [], Element ''BODY'' [] [] body]]"

definition page_without_root :: page where
  "page_without_root =
     \<lparr>document = html [Element ''DIV'' [] [] [Element ''P'' [] [] [Text ''Hello'']]],
      location_href = ''https://example.com/docs''\<rparr>"

definition page_article :: page where
  "page_article =
     \<lparr>document = html [Element ''ARTICLE'' [] [] [Element ''P'' [] [] [Text ''Hello'']]],
      location_href = ''https://example.com/docs''\<rparr>"

definition page_python_in_list :: page where
  "page_python_in_list =
     \<lparr>document = html [Element ''ARTICLE'' [] []
        [Element ''UL'' [] []
          [Element ''LI'' [] []
            [Element ''PRE'' [] []
              [Element ''CODE'' [(''class'', ''language-python'')] [] [Text ''print(1)'']]]]]],
      location_href = ''https://example.com/docs''\<rparr>"

definition python_pre :: node where
  "python_pre = Element ''PRE'' [] [] [Element ''CODE'' [(''class'', ''language-python'')] [] [Text ''print(1)'']]"

definition page_python :: page where
  "page_python =
     \<lparr>document = html [Element ''ARTICLE'' [] [] [Element ''P'' [] [] [Text ''Run:''], python_pre]],
      location_href = ''https://example.com/docs''\<rparr>"

definition page_blank_runs :: page where
  "page_blank_runs =
     \<lparr>document = html [Element ''ARTICLE'' [] []
        [Element ''P'' [] [] [Text ''a''], Element ''P'' [] [] [], Element ''P'' [] [] [],
         Element ''P'' [] [] [Text ''b'']]],
      location_href = ''https://example.com/docs''\<rparr>"

definition spaced_pre :: node where
  "spaced_pre = Element ''PRE'' [] []
     [Element ''CODE'' [(''class'', ''language-js'')] [] [Text ''a();\<newline>\<newline>\<newline>\<newline>b();'']]"

definition page_spaced_code :: page where
  "page_spaced_code =
     \<lparr>document = html [Element ''MAIN'' [] [] [spaced_pre]],
      location_href = ''https://example.com/docs''\<rparr>"

definition page_trailing_blank :: page where
  "page_trailing_blank =
     \<lparr>document = html [Element ''ARTICLE'' [] []
        [Element ''P'' [] [] [Text ''x''], Element ''P'' [] [] [], Element ''P'' [] [] [],
         Element ''P'' [] [] []]],
      location_href = ''https://example.com/docs''\<rparr>"

definition page_no_heading :: page where
  "page_no_heading =
     \<lparr>document = html [Element ''MAIN'' [] []
        [Element ''H2'' [] [] [Text ''Install''], Element ''P'' [] [] [Text ''Run it.'']]],
      location_href = ''https://example.com/docs''\<rparr>"

definition page_title_outside :: page where
  "page_title_outside =
     \<lparr>document = html
        [Element ''HEADER'' [] [] [Element ''H1'' [] [] [Text '' Guide '']],
         Element ''ARTICLE'' [] [] [Element ''P'' [] [] [Text ''Body'']]],
      location_href = ''https://example.com/docs''\<rparr>"

definition page_nested_h1 :: page where
  "page_nested_h1 =
     \<lparr>document = html [Element ''ARTICLE'' [] []
        [Element ''DIV'' [] [] [Element ''H1'' [] [] [Text ''Title''], Element ''P'' [] [] [Text ''Body'']]]],
      location_href = ''https://example.com/docs''\<rparr>"




definition page_python_nested :: page where
  "page_python_nested =
     \<lparr>document = html [Element ''MAIN'' [] []
        [Element ''SECTION'' [] []
           [Element ''P'' [] [] [Text ''Run:''],
            Element ''DIV'' [(''class'', ''code-block'')] []
              [Element ''PRE'' [] [] [Element ''CODE'' [(''class'', ''hljs language-python'')] []
                 [Text ''print(1)\<newline>'']]]]]],
      location_href = ''https://example.com/docs''\<rparr>"

definition page_two_h1 :: page where
  "page_two_h1 =
     \<lparr>document = html [Element ''ARTICLE'' [] []
        [Element ''DIV'' [] [] [Element ''H1'' [] [] [Text ''Title'']],
         Element ''H1'' [] [] [Text ''Other''],
         Element ''P'' [] [] [Text ''Body'']]],
      location_href = ''https://example.com/docs''\<rparr>"

definition page_title_in_header :: page where
  "page_title_in_header =
     \<lparr>document = html [Element ''ARTICLE'' [] []
        [Element ''HEADER'' [] [] [Element ''H1'' [] [] [Text ''Guide'']],
         Element ''P'' [] [] [Text ''Body'']]],
      location_href = ''https://example.com/docs''\<rparr>"

definition page_two_titles :: page where
  "page_two_titles =
     \<lparr>document = html
        [Element ''HEADER'' [] [] [Element ''H1'' [] [] [Text ''Site'']],
         Element ''ARTICLE'' [] [] [Element ''P'' [] [] [Text ''Body'']],
         Element ''ARTICLE'' [] [] [Element ''H1'' [] [] [Text ''Second'']]],
      location_href = ''https://example.com/docs''\<rparr>"

definition page_title_runs :: page where
  "page_title_runs =
     \<lparr>document = html
        [Element ''HEADER'' [] []
           [Element ''H1'' [] []
              [Element ''SPAN'' [] [] [Text ''A''], Text ''\<newline>\<newline>\<newline>'',
               Element ''SPAN'' [] [] [Text ''B'']]],
         Element ''ARTICLE'' [] [] [Element ''P'' [] [] [Text ''Body'']]],
      location_href = ''https://example.com/docs''\<rparr>"

definition page_title_empty :: page where
  "page_title_empty =
     \<lparr>document = html
        [Element ''HEADER'' [] [] [Element ''H1'' [] [] []],
         Element ''ARTICLE'' [] [] []],
      location_href = ''https://example.com/docs''\<rparr>"



section \<open>Properties of the string functions\<close>

lemma takeWhile_nl_append:
  "b = [] \<or> hd b \<noteq> nl \<Longrightarrow> takeWhile (\<lambda>x. x = nl) (a @ b) = takeWhile (\<lambda>x. x = nl) a"
  by (induction a) (auto simp: takeWhile_eq_Nil_iff neq_Nil_conv)

lemma dropWhile_nl_append:
  "b = [] \<or> hd b \<noteq> nl \<Longrightarrow> dropWhile (\<lambda>x. x = nl) (a @ b) = dropWhile (\<lambda>x. x = nl) a @ b"
  by (induction a) (auto simp: dropWhile_eq_self_iff neq_Nil_conv)

lemma replace_nl3_append_right:
  "b = [] \<or> hd b \<noteq> nl \<Longrightarrow> replace_nl3 (a @ b) = replace_nl3 a @ replace_nl3 b"
proof (induction a rule: replace_nl3.induct)
  case 1
  then show ?case by simp
next
  case (2 c cs)
  have t: "takeWhile (\<lambda>x. x = nl) ((c # cs) @ b) = takeWhile (\<lambda>x. x = nl) (c # cs)"
    using "2.prems" by (rule takeWhile_nl_append)
  have d: "dropWhile (\<lambda>x. x = nl) ((c # cs) @ b) = dropWhile (\<lambda>x. x = nl) (c # cs) @ b"
    using "2.prems" by (rule dropWhile_nl_append)
  show ?case
  proof (cases "3 \<le> length (takeWhile (\<lambda>x. x = nl) (c # cs))")
    case True
    have "replace_nl3 ((c # cs) @ b) = nl # nl # replace_nl3 (dropWhile (\<lambda>x. x = nl) (c # cs) @ b)"
      using True t d by (metis append_Cons replace_nl3.simps(2))
    also have "\<dots> = nl # nl # replace_nl3 (dropWhile (\<lambda>x. x = nl) (c # cs)) @ replace_nl3 b"
      using "2.IH"(1)[OF True "2.prems"] by simp
    also have "\<dots> = replace_nl3 (c # cs) @ replace_nl3 b"
      using True by (metis append_Cons replace_nl3.simps(2))
    finally show ?thesis .
  next
    case False
    have "replace_nl3 ((c # cs) @ b) = c # replace_nl3 (cs @ b)"
      using False t by (metis append_Cons replace_nl3.simps(2))
    also have "\<dots> = c # replace_nl3 cs @ replace_nl3 b"
      using "2.IH"(2)[OF False "2.prems"] by simp
    also have "\<dots> = replace_nl3 (c # cs) @ replace_nl3 b"
      using False by (metis append_Cons replace_nl3.simps(2))
    finally show ?thesis .
  qed
qed

lemma takeWhile_nl_append_left:
  "a \<noteq> [] \<Longrightarrow> last a \<noteq> nl \<Longrightarrow> takeWhile (\<lambda>x. x = nl) (a @ b) = takeWhile (\<lambda>x. x = nl) a"
  by (induction a) (auto split: if_splits)

lemma dropWhile_nl_append_left:
  "a \<noteq> [] \<Longrightarrow> last a \<noteq> nl \<Longrightarrow> dropWhile (\<lambda>x. x = nl) (a @ b) = dropWhile (\<lambda>x. x = nl) a @ b"
  by (induction a) (auto split: if_splits)

lemma dropWhile_nl_last:
  "a \<noteq> [] \<Longrightarrow> last a \<noteq> nl \<Longrightarrow>
     dropWhile (\<lambda>x. x = nl) a \<noteq> [] \<and> last (dropWhile (\<lambda>x. x = nl) a) \<noteq> nl"
  by (induction a) (auto split: if_splits)

lemma replace_nl3_append_left:
  "a = [] \<or> last a \<noteq> nl \<Longrightarrow> replace_nl3 (a @ b) = replace_nl3 a @ replace_nl3 b"
proof (induction a rule: replace_nl3.induct)
  case 1
  then show ?case by simp
next
  case (2 c cs)
  then have l: "last (c # cs) \<noteq> nl" by simp
  have t: "takeWhile (\<lambda>x. x = nl) ((c # cs) @ b) = takeWhile (\<lambda>x. x = nl) (c # cs)"
    using l by (intro takeWhile_nl_append_left) simp_all
  have d: "dropWhile (\<lambda>x. x = nl) ((c # cs) @ b) = dropWhile (\<lambda>x. x = nl) (c # cs) @ b"
    using l by (intro dropWhile_nl_append_left) simp_all
  have dl: "dropWhile (\<lambda>x. x = nl) (c # cs) = [] \<or> last (dropWhile (\<lambda>x. x = nl) (c # cs)) \<noteq> nl"
    using dropWhile_nl_last[of "c # cs"] l by simp
  have cl: "cs = [] \<or> last cs \<noteq> nl" using l by (auto split: if_splits)
  show ?case
  proof (cases "3 \<le> length (takeWhile (\<lambda>x. x = nl) (c # cs))")
    case True
    have "replace_nl3 ((c # cs) @ b) = nl # nl # replace_nl3 (dropWhile (\<lambda>x. x = nl) (c # cs) @ b)"
      using True t d by (metis append_Cons replace_nl3.simps(2))
    also have "\<dots> = nl # nl # replace_nl3 (dropWhile (\<lambda>x. x = nl) (c # cs)) @ replace_nl3 b"
      using "2.IH"(1)[OF True dl] by simp
    also have "\<dots> = replace_nl3 (c # cs) @ replace_nl3 b"
      using True by (metis append_Cons replace_nl3.simps(2))
    finally show ?thesis .
  next
    case False
    have "replace_nl3 ((c # cs) @ b) = c # replace_nl3 (cs @ b)"
      using False t by (metis append_Cons replace_nl3.simps(2))
    also have "\<dots> = c # replace_nl3 cs @ replace_nl3 b"
      using "2.IH"(2)[OF False cl] by simp
    also have "\<dots> = replace_nl3 (c # cs) @ replace_nl3 b"
      using False by (metis append_Cons replace_nl3.simps(2))
    finally show ?thesis .
  qed
qed

lemma replace_nl3_hd:
  "s \<noteq> [] \<Longrightarrow> hd s \<noteq> nl \<Longrightarrow> replace_nl3 s = hd s # replace_nl3 (tl s)"
  by (cases s) auto

lemma replace_nl3_run:
  assumes "3 \<le> n" and "b = [] \<or> hd b \<noteq> nl"
  shows "replace_nl3 (replicate n nl @ b) = nl # nl # replace_nl3 b"
proof -
  obtain m where n: "n = Suc m" using assms(1) by (cases n) auto
  have t: "takeWhile (\<lambda>x. x = nl) (replicate n nl @ b) = replicate n nl"
    using assms(2) by (induction n) (auto simp: takeWhile_eq_Nil_iff neq_Nil_conv)
  have d: "dropWhile (\<lambda>x. x = nl) (replicate n nl @ b) = b"
    using assms(2) by (induction n) (auto simp: dropWhile_eq_self_iff neq_Nil_conv)
  have "replace_nl3 (nl # replicate m nl @ b) =
          nl # nl # replace_nl3 (dropWhile (\<lambda>x. x = nl) (nl # replicate m nl @ b))"
    using t assms(1) unfolding n by (subst replace_nl3.simps(2)) simp
  then show ?thesis using d unfolding n by simp
qed

lemma replace_nl3_no_run: "\<not> sublist [nl, nl, nl] (replace_nl3 s)"
proof (induction s rule: replace_nl3.induct)
  case 1
  then show ?case by simp
next
  case (2 c cs)
  let ?d = "dropWhile (\<lambda>x. x = nl) (c # cs)"
  have dh: "?d = [] \<or> hd ?d \<noteq> nl" using hd_dropWhile[of "\<lambda>x. x = nl" "c # cs"] by blast
  have start: "\<And>s. s = [] \<or> hd s \<noteq> nl \<Longrightarrow> replace_nl3 s = [] \<or> hd (replace_nl3 s) \<noteq> nl"
    subgoal for s by (cases s) auto
    done
  show ?case
  proof (cases "3 \<le> length (takeWhile (\<lambda>x. x = nl) (c # cs))")
    case True
    then have eq: "replace_nl3 (c # cs) = nl # nl # replace_nl3 ?d" by simp
    have "\<not> sublist [nl, nl, nl] (replace_nl3 ?d)" using "2.IH"(1)[OF True] .
    moreover have "replace_nl3 ?d = [] \<or> hd (replace_nl3 ?d) \<noteq> nl" using start[OF dh] .
    ultimately show ?thesis unfolding eq
      by (cases "replace_nl3 ?d") (auto simp: sublist_Cons_right)
  next
    case False
    then have eq: "replace_nl3 (c # cs) = c # replace_nl3 cs" by simp
    have ih: "\<not> sublist [nl, nl, nl] (replace_nl3 cs)" using "2.IH"(2)[OF False] .
    show ?thesis
    proof (cases "prefix [nl, nl, nl] (c # replace_nl3 cs)")
      case p: True
      then obtain r where r: "replace_nl3 cs = nl # nl # r" and c: "c = nl"
        by (auto simp: prefix_Cons prefix_def)
      have "cs \<noteq> []" using r by auto
      then obtain x xs where cs: "cs = x # xs" by (cases cs) auto
      have x: "x = nl" using r start[of cs] cs
        by (metis list.sel(1) list.distinct(1))
      have "xs \<noteq> []" using r cs x False c by (auto split: if_splits)
      then obtain y ys where xs: "xs = y # ys" by (cases xs) auto
      have y: "y \<noteq> nl" using False c cs x xs by (auto split: if_splits)
      have "replace_nl3 cs = nl # y # replace_nl3 ys" using cs x xs y by simp
      then show ?thesis using r y by simp
    next
      case np: False
      then show ?thesis using ih unfolding eq by (simp add: sublist_Cons_right)
    qed
  qed
qed

lemma replace_nl3_id: "\<not> sublist [nl, nl, nl] s \<Longrightarrow> replace_nl3 s = s"
proof (induction s rule: replace_nl3.induct)
  case 1
  then show ?case by simp
next
  case (2 c cs)
  have np: "\<not> prefix [nl, nl, nl] (c # cs)" and ns: "\<not> sublist [nl, nl, nl] cs"
    using "2.prems" by (auto simp: sublist_Cons_right)
  have short: "\<not> 3 \<le> length (takeWhile (\<lambda>x. x = nl) (c # cs))"
  proof
    assume h: "3 \<le> length (takeWhile (\<lambda>x. x = nl) (c # cs))"
    then have "prefix [nl, nl, nl] (c # cs)"
      by (cases cs; cases "tl cs") (auto simp: split: if_splits)
    then show False using np by simp
  qed
  then show ?case using "2.IH"(2)[OF short ns] by simp
qed

lemma replace_nl3_changes: "sublist [nl, nl, nl] s \<Longrightarrow> replace_nl3 s \<noteq> s"
  using replace_nl3_no_run[of s] by auto

lemma replace_nl3_mem: "c \<noteq> nl \<Longrightarrow> c \<in> set (replace_nl3 s) \<longleftrightarrow> c \<in> set s"
proof (induction s rule: replace_nl3.induct)
  case 1
  then show ?case by simp
next
  case (2 x xs)
  show ?case
  proof (cases "3 \<le> length (takeWhile (\<lambda>x. x = nl) (x # xs))")
    case True
    have "c \<in> set (x # xs) \<longleftrightarrow> c \<in> set (dropWhile (\<lambda>x. x = nl) (x # xs))"
      using "2.prems" takeWhile_dropWhile_id[of "\<lambda>x. x = nl" "x # xs"]
      by (metis (mono_tags, lifting) Un_iff set_append set_takeWhileD)
    then show ?thesis using True "2.IH"(1)[OF True "2.prems"] "2.prems" by simp
  next
    case False
    then show ?thesis using "2.IH"(2)[OF False "2.prems"] by simp
  qed
qed

lemma replace_nl3_last:
  assumes "s \<noteq> []" "last s \<noteq> nl"
  shows "replace_nl3 s \<noteq> [] \<and> last (replace_nl3 s) = last s"
proof -
  have "replace_nl3 (butlast s @ [last s]) = replace_nl3 (butlast s) @ replace_nl3 [last s]"
    by (rule replace_nl3_append_right) (simp add: assms)
  then show ?thesis using assms by simp
qed

lemma is_space_nl: "is_space nl"
  by (simp add: is_space_def nl_def)

lemma trimStart_append: "b \<noteq> [] \<Longrightarrow> \<not> is_space (hd b) \<Longrightarrow> trimStart (a @ b) = trimStart a @ b"
  by (cases b) (auto simp: trimStart_def dropWhile_append)

lemma trimEnd_append: "a \<noteq> [] \<Longrightarrow> \<not> is_space (last a) \<Longrightarrow> trimEnd (a @ b) = a @ trimEnd b"
  by (cases a rule: rev_cases) (auto simp: trimEnd_def dropWhile_append)

lemma trim_middle:
  assumes "m \<noteq> []" "\<not> is_space (hd m)" "\<not> is_space (last m)"
  shows "trim (a @ m @ b) = trimStart a @ m @ trimEnd b"
proof -
  have "trimStart (a @ m @ b) = trimStart a @ m @ b"
    using trimStart_append[of "m @ b" a] assms by simp
  moreover have "trimEnd ((trimStart a @ m) @ b) = (trimStart a @ m) @ trimEnd b"
    using assms by (intro trimEnd_append) simp_all
  ultimately show ?thesis by (simp add: trim_def)
qed

lemma sublist_trim: "sublist (trim s) s"
proof -
  have "suffix (trimStart s) s" by (simp add: trimStart_def suffix_dropWhile)
  moreover have "prefix (trimEnd (trimStart s)) (trimStart s)"
    unfolding trimEnd_def
    by (metis suffix_dropWhile suffix_to_prefix rev_rev_ident)
  ultimately show ?thesis unfolding trim_def
    by (meson prefix_imp_sublist suffix_imp_sublist sublist_order.order_trans)
qed

lemma trim_ends:
  assumes "trim s \<noteq> []"
  shows "\<not> is_space (hd (trim s)) \<and> \<not> is_space (last (trim s))"
proof -
  let ?t = "trimStart s"
  have t: "?t \<noteq> []" using assms by (auto simp: trim_def trimEnd_def)
  have h: "\<not> is_space (hd ?t)" using t unfolding trimStart_def by (metis hd_dropWhile)
  have l: "\<not> is_space (last (trim s))"
    using assms unfolding trim_def trimEnd_def
    by (metis hd_dropWhile last_rev rev_is_Nil_conv)
  have "trimEnd ([hd ?t] @ tl ?t) = [hd ?t] @ trimEnd (tl ?t)"
    using h by (intro trimEnd_append) simp_all
  then have "hd (trim s) = hd ?t" using t by (simp add: trim_def)
  then show ?thesis using h l by simp
qed

lemma join_append:
  "xs \<noteq> [] \<Longrightarrow> ys \<noteq> [] \<Longrightarrow> join sep (xs @ ys) = join sep xs @ sep @ join sep ys"
proof (induction sep xs rule: join.induct)
  case (2 sep x)
  then show ?case by (cases ys) auto
qed auto

lemma join_middle:
  assumes "ms \<noteq> []"
  shows "join sep (xs @ ms @ ys) =
           (if xs = [] then [] else join sep xs @ sep) @ join sep ms @
           (if ys = [] then [] else sep @ join sep ys)"
  using assms by (cases "xs = []"; cases "ys = []") (simp_all add: join_append)

lemma post_middle:
  assumes "m \<noteq> []" "\<not> is_space (hd m)" "\<not> is_space (last m)"
  shows "trim (replace_nl3 (a @ m @ b)) =
           trimStart (replace_nl3 a) @ replace_nl3 m @ trimEnd (replace_nl3 b)"
proof -
  have h: "hd m \<noteq> nl" and l: "last m \<noteq> nl" using assms is_space_nl by auto
  have "replace_nl3 (a @ m @ b) = replace_nl3 a @ replace_nl3 (m @ b)"
    using assms(1) h by (intro replace_nl3_append_right) simp
  also have "replace_nl3 (m @ b) = replace_nl3 m @ replace_nl3 b"
    using l by (intro replace_nl3_append_left) simp
  finally have eq: "replace_nl3 (a @ m @ b) = replace_nl3 a @ replace_nl3 m @ replace_nl3 b" .
  have m1: "replace_nl3 m \<noteq> []" and m3: "last (replace_nl3 m) = last m"
    using replace_nl3_last[OF assms(1) l] by auto
  have m2: "hd (replace_nl3 m) = hd m" using replace_nl3_hd[OF assms(1) h] by simp
  show ?thesis unfolding eq using m1 m2 m3 assms by (intro trim_middle) simp_all
qed

lemma post_fragments:
  assumes "ms \<noteq> []" "join [nl] ms \<noteq> []"
    "\<not> is_space (hd (join [nl] ms))" "\<not> is_space (last (join [nl] ms))"
  shows "sublist (replace_nl3 (join [nl] ms)) (post (xs @ ms @ ys))"
proof -
  have "post (xs @ ms @ ys) =
          trim (replace_nl3 ((if xs = [] then [] else join [nl] xs @ [nl]) @ join [nl] ms @
                             (if ys = [] then [] else [nl] @ join [nl] ys)))"
    by (simp only: post_def join_middle[OF assms(1)])
  also have "\<dots> = trimStart (replace_nl3 (if xs = [] then [] else join [nl] xs @ [nl])) @
                    replace_nl3 (join [nl] ms) @
                    trimEnd (replace_nl3 (if ys = [] then [] else [nl] @ join [nl] ys))"
    using assms(2-4) by (rule post_middle)
  finally show ?thesis by (metis sublist_appendI)
qed

lemma post_no_run: "\<not> sublist [nl, nl, nl] (post lines)"
proof
  assume "sublist [nl, nl, nl] (post lines)"
  moreover have "sublist (post lines) (replace_nl3 (join [nl] lines))"
    unfolding post_def by (rule sublist_trim)
  ultimately have "sublist [nl, nl, nl] (replace_nl3 (join [nl] lines))"
    by (meson sublist_order.order_trans)
  then show False using replace_nl3_no_run by blast
qed

lemma trimStart_append_mem:
  "c \<in> set a \<Longrightarrow> \<not> is_space c \<Longrightarrow> trimStart (a @ b) = trimStart a @ b"
  by (simp add: trimStart_def dropWhile_append1)

lemma trimEnd_append_mem:
  "c \<in> set b \<Longrightarrow> \<not> is_space c \<Longrightarrow> trimEnd (a @ b) = a @ trimEnd b"
  by (simp add: trimEnd_def dropWhile_append1)

lemma trimStart_last:
  assumes "c \<in> set a" "\<not> is_space c"
  shows "trimStart a \<noteq> [] \<and> last (trimStart a) = last a"
proof -
  have ne: "dropWhile is_space a \<noteq> []" using assms by (auto simp: dropWhile_eq_Nil_conv)
  have "a = takeWhile is_space a @ dropWhile is_space a" by simp
  then have "last a = last (dropWhile is_space a)" using ne by (metis last_appendR)
  then show ?thesis using ne by (simp add: trimStart_def)
qed

lemma trimEnd_hd:
  assumes "c \<in> set b" "\<not> is_space c"
  shows "trimEnd b \<noteq> [] \<and> hd (trimEnd b) = hd b"
proof -
  have "trimStart (rev b) \<noteq> [] \<and> last (trimStart (rev b)) = last (rev b)"
    using assms by (intro trimStart_last[of c]) simp_all
  then show ?thesis using assms(1)
    by (cases b) (auto simp: trimEnd_def trimStart_def hd_rev last_rev)
qed

lemma sublist_after: "sublist s b \<Longrightarrow> sublist s (h @ b)"
  by (meson sublist_order.order_trans suffix_imp_sublist suffixI)

lemma not_prefix_hash: "\<not> prefix ''# '' (''Source: '' @ s)"
  by simp

lemma title_line_prefix:
  assumes "t = trim s" "t \<noteq> []"
  shows "prefix (''# '' @ replace_nl3 t) (post ((''# '' @ t) # [] # body))"
proof -
  let ?m = "''# '' @ t"
  have e: "\<not> is_space (hd t) \<and> \<not> is_space (last t)" using assms trim_ends by blast
  have j: "join [nl] (?m # [] # body) = [] @ ?m @ ([nl] @ join [nl] ([] # body))" by simp
  have "trim (replace_nl3 ([] @ ?m @ ([nl] @ join [nl] ([] # body)))) =
          trimStart (replace_nl3 []) @ replace_nl3 ?m @ trimEnd (replace_nl3 ([nl] @ join [nl] ([] # body)))"
    using assms(2) e by (intro post_middle) (simp_all add: is_space_def)
  moreover have "replace_nl3 (''# '' @ t) = replace_nl3 ''# '' @ replace_nl3 t"
    by (intro replace_nl3_append_left) (simp add: nl_def)
  moreover have "replace_nl3 ''# '' = ''# ''" by (simp add: nl_def)
  ultimately have "post (?m # [] # body) =
      (''# '' @ replace_nl3 t) @ trimEnd (replace_nl3 ([nl] @ join [nl] ([] # body)))"
    unfolding post_def j by (simp add: trimStart_def)
  then show ?thesis by (metis prefixI)
qed

section \<open>Fenced code blocks\<close>

lemma is_word_not_space: "is_word c \<Longrightarrow> \<not> is_space c"
  by (auto simp: is_word_def is_space_def)

lemma match_language_word: "match_language s = Some l \<Longrightarrow> l \<noteq> [] \<and> (\<forall>c\<in>set l. is_word c)"
  by (induction s) (auto split: if_splits dest: set_takeWhileD)

lemma pre_lang_word: "\<forall>c\<in>set (pre_lang node). is_word c"
proof (cases "querySelector (Tag ''code'') node")
  case None
  then show ?thesis by (simp add: pre_lang_def)
next
  case (Some codeEl)
  show ?thesis
  proof (cases "match_language (className codeEl)")
    case None
    then show ?thesis using Some by (simp add: pre_lang_def)
  next
    case l: (Some l)
    then show ?thesis using Some match_language_word[OF l] by (simp add: pre_lang_def)
  qed
qed

lemma tag_of_pre_walk:
  assumes "tag_of node = ''pre''"
  shows "walk ptag idx node = [[], ''```'' @ pre_lang node, pre_code node, ''```'', []]"
proof -
  obtain tn as st cs where n: "node = Element tn as st cs" and t: "toLowerCase tn = ''pre''"
    using assms by (cases node) auto
  have "heading_level ''pre'' = None" by (simp add: heading_level_def)
  then show ?thesis unfolding n using t by (simp add: pre_lines_def)
qed

lemma replace_nl3_no_nl: "nl \<notin> set s \<Longrightarrow> replace_nl3 s = s"
proof (rule replace_nl3_id)
  assume "nl \<notin> set s"
  show "\<not> sublist [nl, nl, nl] s"
  proof
    assume "sublist [nl, nl, nl] s"
    then have "set [nl, nl, nl] \<subseteq> set s" by (rule set_mono_sublist)
    then show False using \<open>nl \<notin> set s\<close> by simp
  qed
qed

lemma fenced_replace:
  assumes "\<forall>c\<in>set lang. is_word c"
    and "code = [] \<or> (\<not> is_space (hd code) \<and> \<not> is_space (last code))"
  shows "replace_nl3 (''```'' @ lang @ [nl] @ code @ [nl] @ ''```'') =
           ''```'' @ lang @ [nl] @ replace_nl3 code @ [nl] @ ''```''"
proof -
  let ?F = "''```'' @ lang"
  have wn: "\<And>c. is_word c \<Longrightarrow> c \<noteq> nl" using is_word_not_space is_space_nl by blast
  have Fnl: "nl \<notin> set ?F" using assms(1) wn by (auto simp: nl_def)
  have Fl: "last ?F \<noteq> nl" using Fnl by (metis append_is_Nil_conv last_in_set list.distinct(1))
  have "replace_nl3 (?F @ ([nl] @ code @ [nl] @ ''```'')) =
          replace_nl3 ?F @ replace_nl3 ([nl] @ code @ [nl] @ ''```'')"
    using Fl by (intro replace_nl3_append_left) simp
  also have "replace_nl3 ?F = ?F" using Fnl by (rule replace_nl3_no_nl)
  also have "replace_nl3 ([nl] @ code @ [nl] @ ''```'') = [nl] @ replace_nl3 code @ [nl] @ ''```''"
  proof (cases "code = []")
    case True
    then show ?thesis by (simp add: nl_def)
  next
    case False
    then have h: "hd code \<noteq> nl" and l: "last code \<noteq> nl" using assms(2) is_space_nl by auto
    have "replace_nl3 ([nl] @ (code @ [nl] @ ''```'')) =
            replace_nl3 [nl] @ replace_nl3 (code @ [nl] @ ''```'')"
      using False h by (intro replace_nl3_append_right) simp
    also have "replace_nl3 (code @ [nl] @ ''```'') = replace_nl3 code @ replace_nl3 ([nl] @ ''```'')"
      using l by (intro replace_nl3_append_left) simp
    finally show ?thesis by (simp add: nl_def)
  qed
  finally show ?thesis by simp
qed

lemma pre_fenced_in_post:
  assumes "tag_of node = ''pre''"
  shows "sublist (''```'' @ pre_lang node @ [nl] @ replace_nl3 (pre_code node) @ [nl] @ ''```'')
           (post (xs @ walk ptag idx node @ ys))"
proof -
  let ?m = "''```'' @ pre_lang node @ [nl] @ pre_code node @ [nl] @ ''```''"
  let ?ms = "[''```'' @ pre_lang node, pre_code node, ''```'']"
  have j: "join [nl] ?ms = ?m" by simp
  have c: "pre_code node = [] \<or> (\<not> is_space (hd (pre_code node)) \<and> \<not> is_space (last (pre_code node)))"
    unfolding pre_code_def using trim_ends by blast
  have r: "replace_nl3 ?m = ''```'' @ pre_lang node @ [nl] @ replace_nl3 (pre_code node) @ [nl] @ ''```''"
    using pre_lang_word c by (rule fenced_replace)
  have w: "xs @ walk ptag idx node @ ys = (xs @ [[]]) @ ?ms @ ([[]] @ ys)"
    by (simp add: tag_of_pre_walk[OF assms])
  have "sublist (replace_nl3 (join [nl] ?ms)) (post ((xs @ [[]]) @ ?ms @ ([[]] @ ys)))"
    by (rule post_fragments) (simp_all add: is_space_def)
  then show ?thesis unfolding j r w .
qed

section \<open>Properties of the queries and of the walk\<close>

lemma descendants_is_element: "e \<in> set (descendants n) \<Longrightarrow> is_element e"
  by (induction n rule: descendants.induct) (auto split: if_splits)

lemma doc_elements_is_element: "e \<in> set (doc_elements ns) \<Longrightarrow> is_element e"
  by (auto simp: doc_elements_def split: if_splits dest: descendants_is_element)

lemma doc_querySelector_None:
  "doc_querySelector sel ns = None \<longleftrightarrow> (\<forall>e\<in>set (doc_elements ns). \<not> matches sel e)"
proof -
  have "doc_querySelector sel ns = None \<longleftrightarrow> filter (matches sel) (doc_elements ns) = []"
    by (simp add: doc_querySelector_def split: list.splits)
  then show ?thesis by (simp add: filter_empty_conv)
qed

lemma doc_querySelector_Some:
  assumes "doc_querySelector sel ns = Some e"
  shows "e \<in> set (doc_elements ns) \<and> matches sel e"
proof -
  obtain es where "filter (matches sel) (doc_elements ns) = e # es"
    using assms by (auto simp: doc_querySelector_def split: list.splits)
  then have "e \<in> set (filter (matches sel) (doc_elements ns))" by simp
  then show ?thesis by simp
qed

lemma find_root_None:
  "find_root doc = None \<longleftrightarrow>
     (\<forall>e\<in>set (doc_elements doc).
        tag_of e \<noteq> ''article'' \<and> getAttribute e ''id'' \<noteq> Some ''content-area'' \<and> tag_of e \<noteq> ''main'')"
proof -
  have "find_root doc = None \<longleftrightarrow>
          doc_querySelector (Tag ''article'') doc = None \<and>
          doc_querySelector (AttrEq ''id'' ''content-area'') doc = None \<and>
          doc_querySelector (Tag ''main'') doc = None"
    by (simp add: find_root_def getElementById_def split: option.splits)
  then show ?thesis
    unfolding doc_querySelector_None using doc_elements_is_element by auto
qed

lemma below_sound:
  "e \<in> set (below anc sub inside n) \<Longrightarrow> matches sub e \<and> (e = n \<or> e \<in> set (descendants n))"
proof (induction anc sub inside n rule: below.induct)
  case (1 anc sub inside tn as st cs)
  let ?n = "Element tn as st cs"
  consider (self) "e = ?n" "matches sub ?n"
    | (child) c where "c \<in> set cs" "e \<in> set (below anc sub (inside \<or> matches anc ?n) c)"
    using "1.prems" by (auto split: if_splits)
  then show ?case
  proof cases
    case self
    then show ?thesis by simp
  next
    case child
    have "matches sub e \<and> (e = c \<or> e \<in> set (descendants c))"
      using "1.IH"[OF child] .
    moreover have "e = c \<Longrightarrow> is_element c" using child(2) by (cases c) auto
    ultimately show ?thesis using child(1) by auto
  qed
qed auto

lemma doc_below_Some:
  assumes "doc_querySelector_below anc sub ns = Some e"
  shows "e \<in> set (doc_elements ns) \<and> matches sub e"
proof -
  obtain es where "concat (map (below anc sub False) ns) = e # es"
    using assms by (auto simp: doc_querySelector_below_def split: list.splits)
  then have "e \<in> set (concat (map (below anc sub False) ns))" by simp
  then obtain n where n: "n \<in> set ns" "e \<in> set (below anc sub False n)" by auto
  have m: "matches sub e" and d: "e = n \<or> e \<in> set (descendants n)"
    using below_sound[OF n(2)] by auto
  have "e = n \<Longrightarrow> is_element n" using n(2) by (cases n) auto
  then have "e \<in> set (doc_elements ns)" using n(1) d by (auto simp: doc_elements_def)
  then show ?thesis using m by simp
qed

lemma find_title_None:
  assumes "\<forall>e\<in>set (doc_elements doc). tag_of e \<noteq> ''h1''"
  shows "find_title doc = None"
proof -
  have a: "doc_querySelector_below (Tag ''article'') (Tag ''h1'') doc = None"
    using doc_below_Some[of "Tag ''article''" "Tag ''h1''" doc] assms
    by (cases "doc_querySelector_below (Tag ''article'') (Tag ''h1'') doc") auto
  have b: "doc_querySelector_below (Tag ''main'') (Tag ''h1'') doc = None"
    using doc_below_Some[of "Tag ''main''" "Tag ''h1''" doc] assms
    by (cases "doc_querySelector_below (Tag ''main'') (Tag ''h1'') doc") auto
  have c: "doc_querySelector (Tag ''h1'') doc = None"
    using assms by (simp add: doc_querySelector_None)
  show ?thesis by (simp add: find_title_def a b c)
qed

lemma find_title_Some:
  assumes "\<exists>e\<in>set (doc_elements doc). tag_of e = ''h1''"
  shows "\<exists>t. find_title doc = Some t \<and> t \<in> set (doc_elements doc) \<and> tag_of t = ''h1''"
proof (cases "doc_querySelector_below (Tag ''article'') (Tag ''h1'') doc")
  case (Some t)
  then show ?thesis using doc_below_Some[OF Some] by (simp add: find_title_def)
next
  case a: None
  show ?thesis
  proof (cases "doc_querySelector_below (Tag ''main'') (Tag ''h1'') doc")
    case (Some t)
    then show ?thesis using doc_below_Some[OF Some] a by (simp add: find_title_def)
  next
    case b: None
    have "doc_querySelector (Tag ''h1'') doc \<noteq> None"
      using assms doc_elements_is_element by (auto simp: doc_querySelector_None)
    then obtain t where t: "doc_querySelector (Tag ''h1'') doc = Some t" by auto
    then show ?thesis using doc_querySelector_Some[OF t] a b by (simp add: find_title_def)
  qed
qed

lemma extract_root:
  "find_root (document (pg::page)) = Some root \<Longrightarrow>
     extractPageText pg = ''Source: '' @ location_href pg @ [nl, nl] @ post (page_lines (document pg) root)"
  by (simp add: extractPageText_def)

section \<open>The pre-clean phase and the strip phase\<close>























section \<open>The objects the extraction changes\<close>

lemma objs_self: "n \<in> set (objs n)"
  by (cases n) auto

lemma objs_trans: "m \<in> set (objs n) \<Longrightarrow> n \<in> set (objs t) \<Longrightarrow> m \<in> set (objs t)"
  by (induction t rule: objs.induct) auto

lemma update_at_absent:
  "r \<notin> addr ` set (objs n) \<Longrightarrow> update_at r g n = n"
proof (induction r g n rule: update_at.induct)
  case (1 r f a tn as st cs)
  have "a \<noteq> r" using "1.prems" by auto
  moreover have "map (update_at r f) cs = cs"
  proof (rule map_idI)
    fix c assume c: "c \<in> set cs"
    then have "r \<notin> addr ` set (objs c)" using "1.prems" by auto
    then show "update_at r f c = c" using "1.IH" \<open>a \<noteq> r\<close> c by simp
  qed
  ultimately show ?case by simp
qed auto

lemma cut_absent:
  "r \<notin> addr ` set (objs n) \<Longrightarrow> cut r n = n"
proof (induction r n rule: cut.induct)
  case (1 r a tn as st cs)
  have ch: "r \<notin> addr ` set (objs c)" if "c \<in> set cs" for c
    using "1.prems" that by auto
  have f: "filter (\<lambda>c. addr c \<noteq> r) cs = cs"
  proof -
    have "addr c \<noteq> r" if "c \<in> set cs" for c
      using ch[OF that] objs_self[of c] by (metis imageI)
    then show ?thesis by (simp add: filter_id_conv)
  qed
  have "map (cut r) cs = cs"
  proof (rule map_idI)
    fix c assume c: "c \<in> set cs"
    then have "c \<in> set (filter (\<lambda>c. addr c \<noteq> r) cs)" using f by simp
    then show "cut r c = c" using "1.IH" ch[OF c] by blast
  qed
  then show ?case using f by simp
qed simp_all

lemma old_absent:
  assumes "old_below f os" "f \<le> r" "t \<in> set os"
  shows "r \<notin> addr ` set (objs t)"
proof
  assume "r \<in> addr ` set (objs t)"
  then obtain n where "n \<in> set (objs t)" "addr n = r" by auto
  then have "r < f" using assms(1,3) by (auto simp: old_below_def)
  then show False using assms(2) by simp
qed

lemma old_update: "old_below f os \<Longrightarrow> f \<le> r \<Longrightarrow> map (update_at r g) os = os"
  by (intro map_idI update_at_absent old_absent)

lemma old_cut: "old_below f os \<Longrightarrow> f \<le> r \<Longrightarrow> map (cut r) os = os"
  by (intro map_idI cut_absent old_absent)

lemma old_filter:
  assumes "old_below f os" "f \<le> r"
  shows "filter (\<lambda>c. addr c \<noteq> r) os = os"
proof -
  have "addr c \<noteq> r" if "c \<in> set os" for c
    using old_absent[OF assms that] objs_self[of c] by (metis imageI)
  then show ?thesis by (simp add: filter_id_conv)
qed

lemma objs_below_sub: "m \<in> set (objs_below n) \<Longrightarrow> m \<in> set (objs n)"
  by (cases n) (auto simp: objs_below_def)

lemma addrs_removeAttribute: "map addr (objs (removeAttribute_obj k n)) = map addr (objs n)"
  by (cases n) simp_all

lemma addrs_removeProperty: "map addr (objs (removeProperty_obj k n)) = map addr (objs n)"
  by (cases n) simp_all

lemma addrs_update_at:
  assumes "\<And>m. map addr (objs (g m)) = map addr (objs m)"
  shows "map addr (objs (update_at r g n)) = map addr (objs n)"
proof (induction n)
  case (ElementObj a tn as st cs)
  show ?case
  proof (cases "a = r")
    case True
    then show ?thesis using assms[of "ElementObj a tn as st cs"] by simp
  next
    case False
    have eq: "map (\<lambda>c. map addr (objs (update_at r g c))) cs = map (\<lambda>c. map addr (objs c)) cs"
      using ElementObj.IH by simp
    have "map addr (objs (update_at r g (ElementObj a tn as st cs))) =
            a # concat (map (\<lambda>c. map addr (objs (update_at r g c))) cs)"
      using False by (simp add: map_concat comp_def)
    also have "\<dots> = a # concat (map (\<lambda>c. map addr (objs c)) cs)" by (simp only: eq)
    also have "\<dots> = map addr (objs (ElementObj a tn as st cs))"
      by (simp add: map_concat comp_def)
    finally show ?thesis .
  qed
qed (use assms in auto)

lemma addrs_cut: "addr ` set (objs (cut r n)) \<subseteq> addr ` set (objs n)"
proof (induction n)
  case (ElementObj a tn as st cs)
  have ih: "addr ` set (objs (cut r c)) \<subseteq> addr ` set (objs c)" if "c \<in> set cs" for c
    using ElementObj.IH that by blast
  show ?case
  proof
    fix x assume "x \<in> addr ` set (objs (cut r (ElementObj a tn as st cs)))"
    then consider "x = a"
      | c where "c \<in> set cs" "x \<in> addr ` set (objs (cut r c))"
      by auto
    then show "x \<in> addr ` set (objs (ElementObj a tn as st cs))"
    proof cases
      case 1
      then show ?thesis by simp
    next
      case 2
      then have "x \<in> addr ` set (objs c)" using ih by blast
      then show ?thesis using 2(1) by auto
    qed
  qed
qed simp_all

lemma new_from_update:
  assumes "\<And>m. map addr (objs (g m)) = map addr (objs m)" "new_from f os"
  shows "new_from f (map (update_at r g) os)"
  unfolding new_from_def
proof (intro ballI)
  fix t n assume t: "t \<in> set (map (update_at r g) os)" and n: "n \<in> set (objs t)"
  obtain t0 where t0: "t0 \<in> set os" "t = update_at r g t0" using t by auto
  have "addr n \<in> set (map addr (objs t))" using n by simp
  then have "addr n \<in> set (map addr (objs t0))"
    unfolding t0(2) by (simp only: addrs_update_at[of g, OF assms(1)])
  then show "f \<le> addr n" using assms(2) t0(1) by (auto simp: new_from_def)
qed

lemma new_from_cut:
  assumes "new_from f os"
  shows "new_from f (map (cut r) os)"
  unfolding new_from_def
proof (intro ballI)
  fix t n assume t: "t \<in> set (map (cut r) os)" and n: "n \<in> set (objs t)"
  obtain t0 where t0: "t0 \<in> set os" "t = cut r t0" using t by auto
  have "addr n \<in> addr ` set (objs t0)" using n addrs_cut[of r t0] unfolding t0(2) by blast
  then show "f \<le> addr n" using assms t0(1) by (auto simp: new_from_def)
qed

lemma lookup_Some:
  assumes "lookup r s = Some n"
  shows "addr n = r \<and> (\<exists>t\<in>set (live s @ detached s). n \<in> set (objs t))"
proof -
  have "addr n = r \<and> n \<in> set (all_objs s)"
    using assms unfolding lookup_def by (auto simp: find_Some_iff)
  then show ?thesis by (auto simp: all_objs_def)
qed

text \<open>An object with a new address lies in a new tree, with all that is below it.\<close>

lemma lookup_new:
  assumes "old_below f (L @ D)" "kept f L D s" "f \<le> r" "lookup r s = Some n"
  shows "new_from f [n]"
proof -
  obtain new where new: "detached s = D @ new" "new_from f new" and l: "live s = L"
    using assms(2) by (auto simp: kept_def)
  obtain t where t: "t \<in> set (L @ D @ new)" "n \<in> set (objs t)" and a: "addr n = r"
    using lookup_Some[OF assms(4)] new(1) l by auto
  have "t \<notin> set (L @ D)"
  proof
    assume "t \<in> set (L @ D)"
    then have "addr n < f" using assms(1) t(2) by (auto simp: old_below_def)
    then show False using a assms(3) by simp
  qed
  then have "t \<in> set new" using t(1) by auto
  then have "\<forall>m\<in>set (objs t). f \<le> addr m" using new(2) by (auto simp: new_from_def)
  then show ?thesis using objs_trans[OF _ t(2)] by (auto simp: new_from_def)
qed

lemma query_new:
  assumes "old_below f (L @ D)" "kept f L D s" "f \<le> c" "r \<in> set (querySelectorAll_at sel c s)"
  shows "f \<le> r"
proof -
  show ?thesis
  proof (cases "lookup c s")
    case None
    then show ?thesis using assms(4) by (simp add: querySelectorAll_at_def)
  next
    case (Some n)
    then obtain e where e: "e \<in> set (objs_below n)" "r = addr e"
      using assms(4) by (auto simp: querySelectorAll_at_def)
    have "new_from f [n]" using assms(1-3) Some by (rule lookup_new)
    then show ?thesis using e objs_below_sub[OF e(1)] by (simp add: new_from_def)
  qed
qed

lemma kept_update:
  assumes "old_below f (L @ D)" "kept f L D s" "f \<le> r"
    and "\<And>m. map addr (objs (g m)) = map addr (objs m)"
  shows "kept f L D (update_store r g s)"
proof -
  obtain new where new: "detached s = D @ new" "new_from f new" and l: "live s = L"
    using assms(2) by (auto simp: kept_def)
  have oL: "old_below f L" and oD: "old_below f D" using assms(1) by (auto simp: old_below_def)
  have "live (update_store r g s) = L"
    using old_update[OF oL assms(3)] l by (simp add: update_store_def)
  moreover have "detached (update_store r g s) = D @ map (update_at r g) new"
    using old_update[OF oD assms(3)] new(1) by (simp add: update_store_def)
  moreover have "new_from f (map (update_at r g) new)"
    using assms(4) new(2) by (rule new_from_update)
  ultimately show ?thesis by (auto simp: kept_def)
qed

lemma kept_unhide:
  assumes "old_below f (L @ D)" "kept f L D s" "f \<le> r"
  shows "kept f L D (unhide_at r s)"
  unfolding unhide_at_def
  by (intro kept_update assms addrs_removeAttribute addrs_removeProperty)

lemma kept_remove:
  assumes "old_below f (L @ D)" "kept f L D s" "f \<le> r"
  shows "kept f L D (remove_at r s)"
proof (cases "lookup r s")
  case None
  then show ?thesis using assms(2) by (simp add: remove_at_def)
next
  case (Some n)
  obtain new where new: "detached s = D @ new" "new_from f new" and l: "live s = L"
    using assms(2) by (auto simp: kept_def)
  have oL: "old_below f L" and oD: "old_below f D" using assms(1) by (auto simp: old_below_def)
  have nn: "new_from f [n]" using assms Some by (rule lookup_new)
  show ?thesis
  proof (cases "r \<in> set (map addr (detached s))")
    case True
    then show ?thesis using assms(2) Some by (simp add: remove_at_def)
  next
    case False
    have "live (remove_at r s) = L"
      using False Some l old_cut[OF oL assms(3)] old_filter[OF oL assms(3)]
      by (simp add: remove_at_def)
    moreover have "detached (remove_at r s) = D @ (map (cut r) new @ [n])"
      using False Some new(1) old_cut[OF oD assms(3)] by (simp add: remove_at_def)
    moreover have "new_from f (map (cut r) new @ [n])"
      using new_from_cut[OF new(2), of r] nn by (auto simp: new_from_def)
    ultimately show ?thesis by (auto simp: kept_def)
  qed
qed

lemma kept_fold:
  assumes "\<And>r s. f \<le> r \<Longrightarrow> kept f L D s \<Longrightarrow> kept f L D (step r s)"
    and "\<forall>r\<in>set rs. f \<le> r" "kept f L D s"
  shows "kept f L D (fold step rs s)"
  using assms(2,3) by (induction rs arbitrary: s) (auto intro: assms(1))

lemma kept_reveal_tabpanels:
  assumes "old_below f (L @ D)" "kept f L D s" "f \<le> c"
  shows "kept f L D (reveal_tabpanels_at c s)"
  unfolding reveal_tabpanels_at_def
proof (rule kept_fold)
  show "\<forall>r\<in>set (querySelectorAll_at (AttrEq ''role'' ''tabpanel'') c s). f \<le> r"
    using query_new[OF assms] by blast
  show "kept f L D s" by (rule assms(2))
  show "kept f L D (unhide_at r s')" if "f \<le> r" "kept f L D s'" for r s'
    using assms(1) that(2,1) by (rule kept_unhide)
qed

lemma kept_reveal_code:
  assumes "old_below f (L @ D)" "kept f L D s" "f \<le> c"
  shows "kept f L D (reveal_code_at c s)"
  unfolding reveal_code_at_def
proof (rule kept_fold)
  show "\<forall>r\<in>set (querySelectorAll_at (AttrEq ''aria-hidden'' ''true'') c s). f \<le> r"
    using query_new[OF assms] by blast
  show "kept f L D s" by (rule assms(2))
  show "kept f L D (if has_pre_at r s' then unhide_at r s' else s')"
    if "f \<le> r" "kept f L D s'" for r s'
    using kept_unhide[OF assms(1) that(2,1)] that(2) by simp
qed

lemma kept_strip:
  assumes "old_below f (L @ D)" "kept f L D s" "f \<le> c"
  shows "kept f L D (strip_at c s)"
proof -
  have "kept f L D (fold (\<lambda>sel s'. fold remove_at (querySelectorAll_at sel c s') s') sels s)" for sels
    using assms(2)
  proof (induction sels arbitrary: s)
    case (Cons sel sels)
    have "kept f L D (fold remove_at (querySelectorAll_at sel c s) s)"
    proof (rule kept_fold)
      show "\<forall>r\<in>set (querySelectorAll_at sel c s). f \<le> r"
        using query_new[OF assms(1) Cons.prems assms(3)] by blast
      show "kept f L D s" by (rule Cons.prems)
      show "kept f L D (remove_at r s')" if "f \<le> r" "kept f L D s'" for r s'
        using assms(1) that(2,1) by (rule kept_remove)
    qed
    then show ?case using Cons.IH by simp
  qed simp
  then show ?thesis by (simp add: strip_at_def)
qed

lemma fold_max_bound:
  "b \<le> fold (\<lambda>n m. max (Suc (addr n)) m) xs b \<and>
   (\<forall>n\<in>set xs. addr n < fold (\<lambda>n m. max (Suc (addr n)) m) xs b)"
proof (induction xs arbitrary: b)
  case (Cons x xs)
  have "max (Suc (addr x)) b \<le> fold (\<lambda>n m. max (Suc (addr n)) m) xs (max (Suc (addr x)) b)"
    using Cons.IH by blast
  then show ?case using Cons.IH[of "max (Suc (addr x)) b"] by auto
qed simp

lemma fresh_old: "old_below (fresh s) (live s @ detached s)"
  unfolding old_below_def fresh_def all_objs_def
  using fold_max_bound[of 0 "concat (map objs (live s @ detached s))"] by auto

lemma copy_from:
  "(\<forall>m\<in>set (objs (fst (copy a n))). a \<le> addr m) \<and> a \<le> snd (copy a n)"
  "(\<forall>c\<in>set (fst (copy_list a cs)). \<forall>m\<in>set (objs c). a \<le> addr m) \<and> a \<le> snd (copy_list a cs)"
proof (induction a n and a cs rule: copy_copy_list.induct)
  case (3 a uu tn as st cs)
  then show ?case by (fastforce split: prod.splits)
next
  case (5 a c cs)
  obtain c' a1 where c: "copy a c = (c', a1)" by (cases "copy a c")
  obtain cs' a2 where cs: "copy_list a1 cs = (cs', a2)" by (cases "copy_list a1 cs")
  have 1: "(\<forall>m\<in>set (objs c'). a \<le> addr m) \<and> a \<le> a1" using "5.IH"(1) c by simp
  have 2: "(\<forall>d\<in>set cs'. \<forall>m\<in>set (objs d). a1 \<le> addr m) \<and> a1 \<le> a2"
    using "5.IH"(2)[OF c[symmetric]] cs c by simp
  show ?case using 1 2 c cs by fastforce
qed simp_all

lemma kept_clone:
  "kept (fresh s) (live s) (detached s) (snd (cloneNode_at root s))"
  using copy_from(1)[of "fresh s" root]
  by (auto simp: kept_def cloneNode_at_def new_from_def)

section \<open>The store and the tree of values\<close>

text \<open>
  The store and the tree of values agree: the copy stands for the same tree as the object
  copied, the elements of the live tree are those of the document it stands for, and the
  content root is chosen alike.
\<close>

lemma copy_erase:
  "erase (fst (copy a n)) = erase n"
  "map erase (fst (copy_list a cs)) = map erase cs"
  by (induction a n and a cs rule: copy_copy_list.induct) (auto split: prod.splits)

lemma objs_erase:
  "map erase (filter (\<lambda>e. is_element (erase e)) (objs n)) =
     (if is_element (erase n) then [erase n] else []) @ descendants (erase n)"
proof (induction n)
  case (ElementObj a tn as st cs)
  have "map erase (filter (\<lambda>e. is_element (erase e)) (concat (map objs cs))) =
          concat (map (\<lambda>c. (if is_element (erase c) then [erase c] else []) @ descendants (erase c)) cs)"
    using ElementObj.IH by (induction cs) auto
  then show ?case by (simp add: comp_def)
qed simp_all

lemma live_elements_erase:
  "map erase (filter (\<lambda>e. is_element (erase e)) (concat (map objs os))) = doc_elements (map erase os)"
  by (induction os) (auto simp: doc_elements_def objs_erase)

lemma find_erase: "map_option erase (find (\<lambda>e. P (erase e)) xs) = find P (map erase xs)"
  by (induction xs) auto

lemma find_filter_case: "find P xs = (case filter P xs of [] \<Rightarrow> None | x # _ \<Rightarrow> Some x)"
  by (induction xs) auto

lemma find_filter_elements:
  "find (\<lambda>e. P (erase e)) (filter (\<lambda>e. is_element (erase e)) xs) =
   find (\<lambda>e. is_element (erase e) \<and> P (erase e)) xs"
  by (induction xs) auto

lemma doc_querySelector_find:
  "doc_querySelector sel (map erase os) =
     map_option erase (find (\<lambda>e. matches sel (erase e))
       (filter (\<lambda>e. is_element (erase e)) (concat (map objs os))))"
  unfolding doc_querySelector_def live_elements_erase[symmetric] find_erase
  by (simp add: find_filter_case)

lemma find_root_at_erase: "map_option erase (find_root_at s) = find_root (map erase (live s))"
  unfolding find_root_def getElementById_def doc_querySelector_find find_root_at_def Let_def
  by (auto split: option.splits)

section \<open>The nodes the walk reaches\<close>

text \<open>
  The fragments of a call of \<open>walk\<close> on a node contain, as a block, the fragments of every
  call made in its course; so the fragments of the page contain those of every node the
  walk reaches, and the result contains the fences of every \<open>pre\<close> element it reaches.
\<close>

lemma walk_recurses:
  assumes "recurses ptag (Element tn as st cs)"
  shows "walk ptag idx (Element tn as st cs) =
           (if toLowerCase tn = ''p'' then [] # walk_nodes (toLowerCase tn) 0 cs @ [[]]
            else walk_nodes (toLowerCase tn) 0 cs)"
  using assms by (auto simp: recurses_def)

lemma walk_nodes_split:
  "c \<in> set cs \<Longrightarrow> \<exists>k xs ys. walk_nodes pt k0 cs = xs @ walk pt k c @ ys"
proof (induction cs arbitrary: k0)
  case (Cons d ds)
  show ?case
  proof (cases "c = d")
    case True
    have "walk_nodes pt k0 (d # ds) = [] @ walk pt k0 c @ walk_nodes pt (if is_element d then Suc k0 else k0) ds"
      using True by simp
    then show ?thesis by blast
  next
    case False
    then have "c \<in> set ds" using Cons.prems by simp
    then obtain k xs ys where "walk_nodes pt (if is_element d then Suc k0 else k0) ds = xs @ walk pt k c @ ys"
      using Cons.IH by blast
    then have "walk_nodes pt k0 (d # ds) = (walk pt k0 d @ xs) @ walk pt k c @ ys" by simp
    then show ?thesis by blast
  qed
qed simp

lemma walked_walk:
  "n \<in> set (walked ptag m) \<Longrightarrow> \<exists>pt i xs ys. walk ptag idx m = xs @ walk pt i n @ ys"
proof (induction m arbitrary: ptag idx)
  case (Element tn as st cs)
  let ?m = "Element tn as st cs"
  show ?case
  proof (cases "n = ?m")
    case True
    have "walk ptag idx ?m = [] @ walk ptag idx n @ []" using True by simp
    then show ?thesis by blast
  next
    case False
    then have r: "recurses ptag ?m" and "n \<in> set (concat (map (walked (toLowerCase tn)) cs))"
      using Element.prems by (auto split: if_splits)
    then obtain c where c: "c \<in> set cs" "n \<in> set (walked (toLowerCase tn) c)" by auto
    obtain k xs1 ys1 where s: "walk_nodes (toLowerCase tn) 0 cs = xs1 @ walk (toLowerCase tn) k c @ ys1"
      using walk_nodes_split[OF c(1)] by blast
    obtain pt i xs2 ys2 where t: "walk (toLowerCase tn) k c = xs2 @ walk pt i n @ ys2"
      using Element.IH[OF c] by blast
    have wn: "walk_nodes (toLowerCase tn) 0 cs = (xs1 @ xs2) @ walk pt i n @ (ys2 @ ys1)"
      by (simp only: s t append_assoc)
    consider (par) "walk ptag idx ?m = [] # walk_nodes (toLowerCase tn) 0 cs @ [[]]"
      | (other) "walk ptag idx ?m = walk_nodes (toLowerCase tn) 0 cs"
      using walk_recurses[OF r, of idx] by (cases "toLowerCase tn = ''p''") simp_all
    then show ?thesis
    proof cases
      case par
      have "walk ptag idx ?m = ([] # xs1 @ xs2) @ walk pt i n @ (ys2 @ ys1 @ [[]])"
        unfolding par wn by simp
      then show ?thesis by blast
    next
      case other
      show ?thesis unfolding other wn by blast
    qed
  qed
next
  case (Text x)
  have "walk ptag idx (Text x) = [] @ walk ptag idx n @ []" using Text by simp
  then show ?case by blast
next
  case (Comment x)
  have "walk ptag idx (Comment x) = [] @ walk ptag idx n @ []" using Comment by simp
  then show ?case by blast
qed

lemma walk_children_split:
  "c \<in> set cs \<Longrightarrow> is_element c \<Longrightarrow> tag_of c \<noteq> ''h1'' \<Longrightarrow>
     \<exists>k xs ys. walk_children pt k0 cs = xs @ walk pt k c @ ys"
proof (induction cs arbitrary: k0)
  case (Cons d ds)
  show ?case
  proof (cases "c = d")
    case True
    have "walk_children pt k0 (d # ds) = [] @ walk pt k0 c @ walk_children pt (Suc k0) ds"
      using True Cons.prems by simp
    then show ?thesis by blast
  next
    case False
    then have "c \<in> set ds" using Cons.prems by simp
    then obtain xs ys k where
      "walk_children pt (if is_element d then Suc k0 else k0) ds = xs @ walk pt k c @ ys"
      using Cons.IH Cons.prems by blast
    then have "walk_children pt k0 (d # ds) =
        ((if is_element d \<and> tag_of d \<noteq> ''h1'' then walk pt k0 d else []) @ xs) @ walk pt k c @ ys"
      by (cases "is_element d") simp_all
    then show ?thesis by blast
  qed
qed simp

lemma walked_children_lines:
  assumes "n \<in> set (walked_children clone)"
  shows "\<exists>pt i xs ys. walk_children (tag_of clone) 0 (childNodes clone) = xs @ walk pt i n @ ys"
proof -
  obtain c where c: "c \<in> set (childNodes clone)" "is_element c" "tag_of c \<noteq> ''h1''"
    "n \<in> set (walked (tag_of clone) c)"
    using assms by (auto simp: walked_children_def)
  obtain k xs1 ys1 where s: "walk_children (tag_of clone) 0 (childNodes clone) =
      xs1 @ walk (tag_of clone) k c @ ys1"
    using walk_children_split[OF c(1,2,3)] by blast
  obtain pt i xs2 ys2 where t: "walk (tag_of clone) k c = xs2 @ walk pt i n @ ys2"
    using walked_walk[OF c(4)] by blast
  have "walk_children (tag_of clone) 0 (childNodes clone) = (xs1 @ xs2) @ walk pt i n @ (ys2 @ ys1)"
    by (simp only: s t append_assoc)
  then show ?thesis by blast
qed

lemma walked_page_lines:
  assumes "n \<in> set (walked_children (clean root))"
  shows "\<exists>pt i xs ys. page_lines doc root = xs @ walk pt i n @ ys"
proof -
  obtain pt i xs ys where
    "walk_children (tag_of (clean root)) 0 (childNodes (clean root)) = xs @ walk pt i n @ ys"
    using walked_children_lines[OF assms] by blast
  then have "page_lines doc root = (title_lines doc @ xs) @ walk pt i n @ ys"
    by (simp add: page_lines_def)
  then show ?thesis by blast
qed

lemma walked_pre_in_result:
  assumes "find_root (document (pg::page)) = Some root"
    and "n \<in> set (walked_children (clean root))"
    and "tag_of n = ''pre''"
  shows "sublist (''```'' @ pre_lang n @ [nl] @ replace_nl3 (pre_code n) @ [nl] @ ''```'')
           (extractPageText pg)"
proof -
  obtain pt i xs ys where p: "page_lines (document pg) root = xs @ walk pt i n @ ys"
    using walked_page_lines[OF assms(2)] by blast
  have "sublist (''```'' @ pre_lang n @ [nl] @ replace_nl3 (pre_code n) @ [nl] @ ''```'')
          (post (page_lines (document pg) root))"
    unfolding p using assms(3) by (rule pre_fenced_in_post)
  then have "sublist (''```'' @ pre_lang n @ [nl] @ replace_nl3 (pre_code n) @ [nl] @ ''```'')
          ((''Source: '' @ location_href pg @ [nl, nl]) @ post (page_lines (document pg) root))"
    by (rule sublist_after)
  then show ?thesis by (simp only: extract_root[OF assms(1)] append_assoc)
qed

section \<open>The cleaned clone\<close>

































section \<open>The title element\<close>

text \<open>
  \<open>document.querySelector("article h1")\<close> finds the first \<open>h1\<close> below the first \<open>article\<close>
  element that holds one: this is the first element, in tree order, that is an \<open>h1\<close> and
  lies below an \<open>article\<close>.
\<close>

lemma first_of_simps [simp]: "first_of [] = None" "first_of (x # xs) = Some x"
  by (simp_all add: first_of_def)

lemma first_of_append: "first_of (xs @ ys) = (if xs = [] then first_of ys else first_of xs)"
  by (cases xs) simp_all

lemma first_of_None: "first_of xs = None \<longleftrightarrow> xs = []"
  by (cases xs) simp_all

lemma first_concat_cong:
  "(\<And>c. c \<in> set cs \<Longrightarrow> first_of (f c) = first_of (g c)) \<Longrightarrow>
     first_of (concat (map f cs)) = first_of (concat (map g cs))"
proof (induction cs)
  case (Cons c cs)
  have h: "first_of (f c) = first_of (g c)" using Cons.prems by simp
  then have e: "f c = [] \<longleftrightarrow> g c = []" using first_of_None by metis
  have t: "first_of (concat (map f cs)) = first_of (concat (map g cs))"
    using Cons by simp
  show ?case using h e t by (simp add: first_of_append)
qed simp

lemma descendants_trans:
  "d \<in> set (descendants n) \<Longrightarrow> e \<in> set (descendants d) \<Longrightarrow> e \<in> set (descendants n)"
proof (induction n)
  case (Element tn as st cs)
  then obtain c where c: "c \<in> set cs" "(is_element c \<and> d = c) \<or> d \<in> set (descendants c)"
    by (auto split: if_splits)
  have "e \<in> set (descendants c)"
    using c(2) Element.IH[OF c(1)] Element.prems(2) by blast
  then show ?case using c(1) by auto
qed simp_all

lemma filter_concat_map:
  "filter P (concat (map f cs)) = concat (map (\<lambda>c. filter P (f c)) cs)"
  by (induction cs) simp_all

lemma below_True:
  "below anc sub True n =
     filter (matches sub) ((if is_element n then [n] else []) @ descendants n)"
proof (induction n)
  case (Element tn as st cs)
  let ?S = "\<lambda>c. (if is_element c then [c] else []) @ descendants c"
  have m: "map (below anc sub True) cs = map (\<lambda>c. filter (matches sub) (?S c)) cs"
    by (rule map_cong[OF refl]) (rule Element.IH)
  have "below anc sub True (Element tn as st cs) =
          filter (matches sub) [Element tn as st cs] @ concat (map (below anc sub True) cs)"
    by simp
  also have "\<dots> = filter (matches sub) [Element tn as st cs] @
                   filter (matches sub) (concat (map ?S cs))"
    by (simp only: m filter_concat_map)
  finally show ?case by simp
qed simp_all

lemma below_True_children:
  "concat (map (below anc sub True) cs) = filter (matches sub) (descendants (Element tn as st cs))"
proof -
  have "map (below anc sub True) cs =
        map (\<lambda>c. filter (matches sub) ((if is_element c then [c] else []) @ descendants c)) cs"
    by (rule map_cong[OF refl]) (rule below_True)
  then show ?thesis by (simp only: descendants.simps filter_concat_map)
qed

lemma filter_descendants_concat:
  "filter P (concat (map descendants (filter Q (concat (map f cs))))) =
     concat (map (\<lambda>c. filter P (concat (map descendants (filter Q (f c))))) cs)"
  by (induction cs) simp_all

lemma below_False_first:
  "first_of (below anc sub False n) =
     first_of (filter (matches sub) (concat (map descendants
        (filter (matches anc) ((if is_element n then [n] else []) @ descendants n)))))"
proof (induction n)
  case (Element tn as st cs)
  let ?n = "Element tn as st cs"
  let ?S = "\<lambda>c. (if is_element c then [c] else []) @ descendants c"
  show ?case
  proof (cases "matches anc ?n")
    case True
    have "below anc sub False ?n = concat (map (below anc sub True) cs)" using True by simp
    also have "\<dots> = filter (matches sub) (descendants ?n)"
      by (rule below_True_children)
    finally have l: "below anc sub False ?n = filter (matches sub) (descendants ?n)" .
    define A where "A = filter (matches sub) (descendants ?n)"
    define B where "B = filter (matches sub) (concat (map descendants (filter (matches anc) (descendants ?n))))"
    have r: "filter (matches sub) (concat (map descendants (filter (matches anc) (?S ?n)))) = A @ B"
      using True unfolding A_def B_def by (simp del: descendants.simps)
    have "e \<in> set A" if h: "e \<in> set B" for e
    proof -
      obtain d where "d \<in> set (descendants ?n)" "e \<in> set (descendants d)" and m: "matches sub e"
        using h unfolding B_def by auto
      then have "e \<in> set (descendants ?n)" using descendants_trans by blast
      then show ?thesis unfolding A_def using m by simp
    qed
    then have "A = [] \<Longrightarrow> B = []" by (cases B) auto
    then show ?thesis unfolding r l[folded A_def] by (auto simp: first_of_append)
  next
    case False
    have l: "below anc sub False ?n = concat (map (below anc sub False) cs)" using False by simp
    have "filter (matches anc) (?S ?n) = filter (matches anc) (concat (map ?S cs))"
      using False by simp
    then have r: "filter (matches sub) (concat (map descendants (filter (matches anc) (?S ?n)))) =
        concat (map (\<lambda>c. filter (matches sub) (concat (map descendants (filter (matches anc) (?S c))))) cs)"
      by (simp only: filter_descendants_concat)
    show ?thesis unfolding l r by (rule first_concat_cong) (rule Element.IH)
  qed
qed simp_all

lemma doc_below_first:
  "doc_querySelector_below anc sub ns =
     first_of (filter (matches sub) (concat (map descendants (filter (matches anc) (doc_elements ns)))))"
proof -
  have "doc_querySelector_below anc sub ns = first_of (concat (map (below anc sub False) ns))"
    by (simp add: doc_querySelector_below_def first_of_def)
  also have "\<dots> = first_of (concat (map (\<lambda>n. filter (matches sub) (concat (map descendants
        (filter (matches anc) ((if is_element n then [n] else []) @ descendants n))))) ns))"
    by (rule first_concat_cong) (rule below_False_first)
  also have "\<dots> = first_of (filter (matches sub) (concat (map descendants
        (filter (matches anc) (doc_elements ns)))))"
    unfolding doc_elements_def by (simp only: filter_descendants_concat)
  finally show ?thesis .
qed

lemma filter_Tag_elements:
  "(\<And>e. e \<in> set es \<Longrightarrow> is_element e) \<Longrightarrow> filter (matches (Tag t)) es = filter (\<lambda>e. tag_of e = t) es"
  by (rule filter_cong) simp_all

lemma doc_below_h1s:
  "doc_querySelector_below (Tag t) (Tag ''h1'') doc = first_of (h1s_below t doc)"
proof -
  have a: "filter (matches (Tag t)) (doc_elements doc) = filter (\<lambda>e. tag_of e = t) (doc_elements doc)"
    by (rule filter_Tag_elements) (rule doc_elements_is_element)
  have b: "filter (matches (Tag ''h1'')) (concat (map descendants es)) =
           filter (\<lambda>e. tag_of e = ''h1'') (concat (map descendants es))" for es
    by (rule filter_Tag_elements) (auto dest: descendants_is_element)
  show ?thesis unfolding doc_below_first a b h1s_below_def ..
qed

lemma find_title_first:
  "find_title doc =
     first_of (if h1s_below ''article'' doc \<noteq> [] then h1s_below ''article'' doc
               else if h1s_below ''main'' doc \<noteq> [] then h1s_below ''main'' doc
               else filter (\<lambda>e. tag_of e = ''h1'') (doc_elements doc))"
proof -
  have q: "doc_querySelector (Tag ''h1'') doc = first_of (filter (\<lambda>e. tag_of e = ''h1'') (doc_elements doc))"
    unfolding doc_querySelector_def first_of_def
    by (simp only: filter_Tag_elements[OF doc_elements_is_element])
  show ?thesis
    unfolding find_title_def doc_below_h1s q
    by (cases "h1s_below ''article'' doc"; cases "h1s_below ''main'' doc") simp_all
qed

section \<open>The claims\<close>

subsection \<open>C1\<close>

text \<open>
  C1, as stated, fails: on a page without a content root the result is the empty string,
  which does not begin with \<open>Source: \<close>.
\<close>

theorem source_line_counterexample:
  "\<not> prefix ''Source: '' (extractPageText page_without_root)"
  by code_simp

text \<open>
  C1, amended.  For every page in which a content root matches, and for every page URL,
  the result begins with \<open>Source: \<close>, the URL and a blank line, whatever the content.
\<close>

theorem source_line_first:
  assumes "\<exists>e\<in>set (doc_elements (document pg)).
             tag_of e = ''article'' \<or> getAttribute e ''id'' = Some ''content-area'' \<or> tag_of e = ''main''"
  shows "prefix (''Source: '' @ location_href pg @ [nl, nl]) (extractPageText pg)"
proof -
  have "find_root (document pg) \<noteq> None" using assms unfolding find_root_None by blast
  then obtain root where "find_root (document pg) = Some root" by auto
  then show ?thesis by (simp add: extractPageText_def)
qed

theorem source_line_first_witness:
  "prefix (''Source: '' @ location_href page_article @ [nl, nl]) (extractPageText page_article) \<and>
   extractPageText page_article = ''Source: https://example.com/docs\<newline>\<newline>Hello''"
proof -
  have h: "\<exists>e\<in>set (doc_elements (document page_article)).
      tag_of e = ''article'' \<or> getAttribute e ''id'' = Some ''content-area'' \<or> tag_of e = ''main''"
    by code_simp
  have v: "extractPageText page_article = ''Source: https://example.com/docs\<newline>\<newline>Hello''"
    by code_simp
  show ?thesis using source_line_first[OF h] v by simp
qed

subsection \<open>C2\<close>

text \<open>
  C2.  When no content root matches (the document has no \<open>article\<close> element, no element
  with id \<open>content-area\<close> and no \<open>main\<close> element), \<open>extractPageText\<close> returns the empty
  string.
\<close>

theorem no_root_empty:
  assumes "\<forall>e\<in>set (doc_elements (document pg)).
             tag_of e \<noteq> ''article'' \<and> getAttribute e ''id'' \<noteq> Some ''content-area'' \<and> tag_of e \<noteq> ''main''"
  shows "extractPageText pg = []"
proof -
  have "find_root (document pg) = None" using assms by (simp add: find_root_None)
  then show ?thesis by (simp add: extractPageText_def)
qed

theorem no_root_empty_witness:
  "find_root (document page_without_root) = None \<and> extractPageText page_without_root = []"
proof -
  have h: "\<forall>e\<in>set (doc_elements (document page_without_root)).
      tag_of e \<noteq> ''article'' \<and> getAttribute e ''id'' \<noteq> Some ''content-area'' \<and> tag_of e \<noteq> ''main''"
    by code_simp
  show ?thesis using h no_root_empty[OF h] by (simp add: find_root_None)
qed

subsection \<open>C3\<close>

text \<open>
  C3 does not hold of the code.  The claim (and the comment \<open>Skip the h1 we already captured\<close>
  of the script) says that the heading emitted as the title is left out of the walk.  The
  loop only leaves out the element children of the clone whose tag is \<open>h1\<close>: a title that
  lies deeper is walked as an element without a rule of its own, and its text is emitted a
  second time; an \<open>h1\<close> child of the clone that is not the title is dropped.
\<close>

theorem captured_h1_walked_again:
  "find_title (document page_nested_h1) = Some (Element ''H1'' [] [] [Text ''Title'']) \<and>
   extractPageText page_nested_h1 =
     ''Source: https://example.com/docs\<newline>\<newline># Title\<newline>\<newline>Title\<newline>\<newline>Body'' \<and>
   find_title (document page_two_h1) = Some (Element ''H1'' [] [] [Text ''Title'']) \<and>
   extractPageText page_two_h1 =
     ''Source: https://example.com/docs\<newline>\<newline># Title\<newline>\<newline>Title\<newline>\<newline>Body''"
  by code_simp

subsection \<open>C4\<close>




subsection \<open>C5\<close>

text \<open>
  C5, as stated, fails for a run at the end of the joined text: the trim removes it, and
  no blank line is left.
\<close>

theorem trailing_run_counterexample:
  "join [nl] (page_lines (document page_trailing_blank) (Element ''ARTICLE'' [] []
        [Element ''P'' [] [] [Text ''x''], Element ''P'' [] [] [], Element ''P'' [] [] [],
         Element ''P'' [] [] []]))
     = ''\<newline>x'' @ replicate 7 nl \<and>
   extractPageText page_trailing_blank = ''Source: https://example.com/docs\<newline>\<newline>x''"
  by code_simp

text \<open>
  C5, amended.  The fragments are joined with newlines, every run of three or more newlines
  is replaced by two, and the result is trimmed.  A run of \<open>n \<ge> 3\<close> newlines of the joined
  text that stands between \<open>a\<close> and \<open>b\<close> (it is a whole run: \<open>a\<close> does not end and \<open>b\<close> does not
  start with a newline; it has text on both sides: \<open>a\<close> and \<open>b\<close> hold a character that is not
  white space) leaves exactly two newlines, that is one blank line, in the result, and the
  result holds no run of three newlines.  Four or more blank lines are the case \<open>n \<ge> 5\<close>.
\<close>

theorem post_collapses_runs:
  assumes "join [nl] lines = a @ replicate n nl @ b" and "3 \<le> n"
    and "last a \<noteq> nl" and "\<exists>c\<in>set a. \<not> is_space c"
    and "hd b \<noteq> nl" and "\<exists>c\<in>set b. \<not> is_space c"
  shows "post lines = trimStart (replace_nl3 a) @ [nl, nl] @ trimEnd (replace_nl3 b) \<and>
         last (trimStart (replace_nl3 a)) \<noteq> nl \<and> hd (trimEnd (replace_nl3 b)) \<noteq> nl \<and>
         \<not> sublist [nl, nl, nl] (post lines)"
proof -
  obtain ca where ca: "ca \<in> set a" "\<not> is_space ca" using assms(4) by blast
  obtain cb where cb: "cb \<in> set b" "\<not> is_space cb" using assms(6) by blast
  have a: "a \<noteq> []" and b: "b \<noteq> []" using ca cb by auto
  have ca': "ca \<in> set (replace_nl3 a)" using ca is_space_nl by (subst replace_nl3_mem) auto
  have cb': "cb \<in> set (replace_nl3 b)" using cb is_space_nl by (subst replace_nl3_mem) auto
  have "replace_nl3 (a @ replicate n nl @ b) = replace_nl3 a @ replace_nl3 (replicate n nl @ b)"
    using assms(3) by (intro replace_nl3_append_left) simp
  also have "replace_nl3 (replicate n nl @ b) = nl # nl # replace_nl3 b"
    using assms(2,5) by (intro replace_nl3_run) simp_all
  finally have r: "replace_nl3 (join [nl] lines) = replace_nl3 a @ [nl, nl] @ replace_nl3 b"
    using assms(1) by simp
  have "trimStart (replace_nl3 a @ [nl, nl] @ replace_nl3 b) =
          trimStart (replace_nl3 a) @ [nl, nl] @ replace_nl3 b"
    using ca' ca(2) by (rule trimStart_append_mem)
  moreover have "trimEnd ((trimStart (replace_nl3 a) @ [nl, nl]) @ replace_nl3 b) =
          (trimStart (replace_nl3 a) @ [nl, nl]) @ trimEnd (replace_nl3 b)"
    using cb' cb(2) by (rule trimEnd_append_mem)
  ultimately have p: "post lines = trimStart (replace_nl3 a) @ [nl, nl] @ trimEnd (replace_nl3 b)"
    by (simp add: post_def trim_def r)
  have "last (trimStart (replace_nl3 a)) = last (replace_nl3 a)"
    using trimStart_last[OF ca' ca(2)] by simp
  then have l: "last (trimStart (replace_nl3 a)) \<noteq> nl"
    using replace_nl3_last[OF a assms(3)] assms(3) by simp
  have "hd (trimEnd (replace_nl3 b)) = hd (replace_nl3 b)"
    using trimEnd_hd[OF cb' cb(2)] by simp
  then have h: "hd (trimEnd (replace_nl3 b)) \<noteq> nl"
    using replace_nl3_hd[OF b assms(5)] assms(5) by simp
  show ?thesis using p l h post_no_run by blast
qed

theorem post_collapses_runs_witness:
  "post (page_lines (document page_blank_runs) (Element ''ARTICLE'' [] []
        [Element ''P'' [] [] [Text ''a''], Element ''P'' [] [] [], Element ''P'' [] [] [],
         Element ''P'' [] [] [Text ''b'']])) = ''a\<newline>\<newline>b'' \<and>
   extractPageText page_blank_runs = ''Source: https://example.com/docs\<newline>\<newline>a\<newline>\<newline>b''"
proof -
  let ?root = "Element ''ARTICLE'' [] []
        [Element ''P'' [] [] [Text ''a''], Element ''P'' [] [] [], Element ''P'' [] [] [],
         Element ''P'' [] [] [Text ''b'']]"
  have j: "join [nl] (page_lines (document page_blank_runs) ?root) =
             ''\<newline>a'' @ replicate 7 nl @ ''b\<newline>''"
    by code_simp
  have n: "(3::nat) \<le> 7" by simp
  have a1: "last ''\<newline>a'' \<noteq> nl" by code_simp
  have a2: "\<exists>c\<in>set ''\<newline>a''. \<not> is_space c" by code_simp
  have b1: "hd ''b\<newline>'' \<noteq> nl" by code_simp
  have b2: "\<exists>c\<in>set ''b\<newline>''. \<not> is_space c" by code_simp
  have t: "trimStart (replace_nl3 ''\<newline>a'') @ [nl, nl] @ trimEnd (replace_nl3 ''b\<newline>'') = ''a\<newline>\<newline>b''"
    by code_simp
  have e: "extractPageText page_blank_runs = ''Source: https://example.com/docs\<newline>\<newline>a\<newline>\<newline>b''"
    by code_simp
  show ?thesis using post_collapses_runs[OF j n a1 a2 b1 b2] t e by simp
qed

subsection \<open>C6\<close>

text \<open>
  C6, as stated, fails: a \<open>pre\<close> block inside a list item is flattened to the text of the
  item, so the result has no fence.
\<close>

theorem python_block_counterexample:
  "extractPageText page_python_in_list = ''Source: https://example.com/docs\<newline>\<newline>- print(1)'' \<and>
   \<not> sublist ''```python\<newline>print(1)\<newline>```'' (extractPageText page_python_in_list)"
  by code_simp

text \<open>
  C6, amended.  The walk reaches a node of the cleaned clone when the node is an element
  child of the clone other than an \<open>h1\<close>, or a child of a reached element that is a
  paragraph or has no conversion rule of its own (its tag is none of \<open>h2\<close> to \<open>h6\<close>, \<open>pre\<close>,
  \<open>li\<close>, \<open>table\<close>, \<open>blockquote\<close>, \<open>strong\<close>, \<open>b\<close>, \<open>a\<close>, and it is not a \<open>code\<close> element outside
  a \<open>pre\<close>).  For a \<open>pre\<close> element the walk pushes five fragments: an empty one, the opening
  fence with the language tag (the first match of \<open>language-(\w+)\<close> in the class attribute
  of the first \<open>code\<close> element below it, empty if there is none), the trimmed text of that
  \<open>code\<close> element (of the \<open>pre\<close> itself when it has none), the closing fence and an empty
  one.  For a \<open>pre\<close> element that the walk reaches, the result of the extraction contains
  the two fences around that text (its runs of three or more newlines collapsed); when
  the tag is \<open>python\<close> and the text trims to \<open>print(1)\<close>, it contains the fenced block of
  the claim as a substring.
\<close>

theorem pre_block_fenced:
  assumes "find_root (document (pg::page)) = Some root"
    and "node \<in> set (walked_children (clean root))"
    and "tag_of node = ''pre''"
  shows "(\<forall>ptag idx. walk ptag idx node =
            [[],
             ''```'' @ (case querySelector (Tag ''code'') node of
                          None \<Rightarrow> []
                        | Some codeEl \<Rightarrow>
                            (case match_language (className codeEl) of None \<Rightarrow> [] | Some l \<Rightarrow> l)),
             trim (textContent (case querySelector (Tag ''code'') node of
                                  None \<Rightarrow> node | Some codeEl \<Rightarrow> codeEl)),
             ''```'',
             []]) \<and>
         sublist
           (''```'' @ (case querySelector (Tag ''code'') node of
                         None \<Rightarrow> []
                       | Some codeEl \<Rightarrow>
                           (case match_language (className codeEl) of None \<Rightarrow> [] | Some l \<Rightarrow> l)) @
            [nl] @
            replace_nl3 (trim (textContent (case querySelector (Tag ''code'') node of
                                              None \<Rightarrow> node | Some codeEl \<Rightarrow> codeEl))) @
            [nl] @ ''```'')
           (extractPageText pg) \<and>
         (\<forall>codeEl.
            querySelector (Tag ''code'') node = Some codeEl \<and>
            match_language (className codeEl) = Some ''python'' \<and>
            trim (textContent codeEl) = ''print(1)''
            \<longrightarrow> sublist ''```python\<newline>print(1)\<newline>```'' (extractPageText pg))"
proof -
  have w: "walk ptag idx node = [[], ''```'' @ pre_lang node, pre_code node, ''```'', []]" for ptag idx
    using assms(3) by (rule tag_of_pre_walk)
  have s: "sublist (''```'' @ pre_lang node @ [nl] @ replace_nl3 (pre_code node) @ [nl] @ ''```'')
             (extractPageText pg)"
    using assms by (rule walked_pre_in_result)
  have py: "sublist ''```python\<newline>print(1)\<newline>```'' (extractPageText pg)"
    if h: "querySelector (Tag ''code'') node = Some codeEl \<and>
           match_language (className codeEl) = Some ''python'' \<and>
           trim (textContent codeEl) = ''print(1)''" for codeEl
  proof -
    have l: "pre_lang node = ''python''" using h by (simp add: pre_lang_def)
    have c: "pre_code node = ''print(1)''" using h by (simp add: pre_code_def)
    have r: "replace_nl3 ''print(1)'' = ''print(1)''" by (simp add: nl_def)
    show ?thesis using s by (simp add: l c r nl_def)
  qed
  show ?thesis using w s py unfolding pre_lang_def pre_code_def by blast
qed

theorem pre_block_fenced_witness:
  "extractPageText page_python =
     ''Source: https://example.com/docs\<newline>\<newline>Run:\<newline>\<newline>```python\<newline>print(1)\<newline>```'' \<and>
   sublist ''```python\<newline>print(1)\<newline>```'' (extractPageText page_python) \<and>
   extractPageText page_python_nested =
     ''Source: https://example.com/docs\<newline>\<newline>Run:\<newline>\<newline>```python\<newline>print(1)\<newline>```'' \<and>
   sublist ''```python\<newline>print(1)\<newline>```'' (extractPageText page_python_nested)"
proof -
  let ?root = "Element ''ARTICLE'' [] [] [Element ''P'' [] [] [Text ''Run:''], python_pre]"
  let ?codeEl = "Element ''CODE'' [(''class'', ''language-python'')] [] [Text ''print(1)'']"
  have a1: "find_root (document page_python) = Some ?root" by code_simp
  have a2: "python_pre \<in> set (walked_children (clean ?root))" by code_simp
  have a3: "tag_of python_pre = ''pre''" by code_simp
  have a4: "querySelector (Tag ''code'') python_pre = Some ?codeEl" by code_simp
  have a5: "match_language (className ?codeEl) = Some ''python''" by code_simp
  have a6: "trim (textContent ?codeEl) = ''print(1)''" by code_simp
  have e1: "extractPageText page_python =
     ''Source: https://example.com/docs\<newline>\<newline>Run:\<newline>\<newline>```python\<newline>print(1)\<newline>```''"
    by code_simp
  let ?code2 = "Element ''CODE'' [(''class'', ''hljs language-python'')] [] [Text ''print(1)\<newline>'']"
  let ?pre2 = "Element ''PRE'' [] [] [?code2]"
  let ?root2 = "Element ''MAIN'' [] []
        [Element ''SECTION'' [] []
           [Element ''P'' [] [] [Text ''Run:''],
            Element ''DIV'' [(''class'', ''code-block'')] [] [?pre2]]]"
  have b1: "find_root (document page_python_nested) = Some ?root2" by code_simp
  have b2: "?pre2 \<in> set (walked_children (clean ?root2))" by code_simp
  have b3: "tag_of ?pre2 = ''pre''" by code_simp
  have b4: "querySelector (Tag ''code'') ?pre2 = Some ?code2" by code_simp
  have b5: "match_language (className ?code2) = Some ''python''" by code_simp
  have b6: "trim (textContent ?code2) = ''print(1)''" by code_simp
  have e2: "extractPageText page_python_nested =
     ''Source: https://example.com/docs\<newline>\<newline>Run:\<newline>\<newline>```python\<newline>print(1)\<newline>```''"
    by code_simp
  have "sublist ''```python\<newline>print(1)\<newline>```'' (extractPageText page_python)"
    using pre_block_fenced[OF a1 a2 a3] a4 a5 a6 by blast
  moreover have "sublist ''```python\<newline>print(1)\<newline>```'' (extractPageText page_python_nested)"
    using pre_block_fenced[OF b1 b2 b3] b4 b5 b6 by blast
  ultimately show ?thesis using e1 e2 by simp
qed

subsection \<open>C7\<close>

text \<open>
  C7.  When a content root matches and the document has no \<open>h1\<close> element, the extraction
  returns a result and no title section is emitted: the fragments are exactly those of the
  tree walk, and the result is the \<open>Source: \<close> line followed by their processed text; it does
  not begin with \<open># \<close>.
\<close>

theorem no_heading_no_title:
  assumes "find_root (document pg) = Some root"
    and "\<forall>e\<in>set (doc_elements (document pg)). tag_of e \<noteq> ''h1''"
  shows "title_lines (document pg) = [] \<and>
         page_lines (document pg) root =
           walk_children (tag_of (clean root)) 0 (childNodes (clean root)) \<and>
         extractPageText pg =
           ''Source: '' @ location_href pg @ [nl, nl] @
           post (walk_children (tag_of (clean root)) 0 (childNodes (clean root))) \<and>
         \<not> prefix ''# '' (extractPageText pg)"
proof -
  have t: "title_lines (document pg) = []"
    using find_title_None[OF assms(2)] by (simp add: title_lines_def)
  then have p: "page_lines (document pg) root =
                  walk_children (tag_of (clean root)) 0 (childNodes (clean root))"
    by (simp add: page_lines_def)
  have e: "extractPageText pg = ''Source: '' @ location_href pg @ [nl, nl] @ post (page_lines (document pg) root)"
    using assms(1) by (rule extract_root)
  have "\<not> prefix ''# '' (extractPageText pg)" unfolding e by (rule not_prefix_hash)
  then show ?thesis using t p e by simp
qed

theorem no_heading_no_title_witness:
  "title_lines (document page_no_heading) = [] \<and>
   extractPageText page_no_heading =
     ''Source: https://example.com/docs\<newline>\<newline>## Install\<newline>\<newline>Run it.''"
proof -
  let ?root = "Element ''MAIN'' [] []
        [Element ''H2'' [] [] [Text ''Install''], Element ''P'' [] [] [Text ''Run it.'']]"
  have h1: "find_root (document page_no_heading) = Some ?root" by code_simp
  have h2: "\<forall>e\<in>set (doc_elements (document page_no_heading)). tag_of e \<noteq> ''h1''" by code_simp
  have e: "extractPageText page_no_heading =
     ''Source: https://example.com/docs\<newline>\<newline>## Install\<newline>\<newline>Run it.''" by code_simp
  show ?thesis using no_heading_no_title[OF h1 h2] e by simp
qed

subsection \<open>C8\<close>

text \<open>
  C8.  The extraction leaves the live document as it is: in the state after the clone,
  the pre-clean phase and the strip phase, the live tree is the one before, every object
  that existed before is unchanged, and what has been added are new objects (the clone and
  what was removed from it), with addresses that were not in use.  The title lookup and the
  walk that follow only read the document.
\<close>

theorem extraction_keeps_live_document:
  "live (extract_store s) = live s \<and>
   (\<exists>new. detached (extract_store s) = detached s @ new \<and>
      (\<forall>t\<in>set new. \<forall>n\<in>set (objs t). fresh s \<le> addr n))"
proof (cases "find_root_at s")
  case None
  then show ?thesis by (simp add: extract_store_def)
next
  case (Some root)
  let ?f = "fresh s"
  let ?s1 = "snd (cloneNode_at root s)"
  have old: "old_below ?f (live s @ detached s)" by (rule fresh_old)
  have e: "extract_store s = strip_at ?f (reveal_code_at ?f (reveal_tabpanels_at ?f ?s1))"
    using Some by (simp add: extract_store_def cloneNode_at_def)
  have "kept ?f (live s) (detached s) ?s1" by (rule kept_clone)
  then have "kept ?f (live s) (detached s) (reveal_tabpanels_at ?f ?s1)"
    using old by (intro kept_reveal_tabpanels) simp_all
  then have "kept ?f (live s) (detached s) (reveal_code_at ?f (reveal_tabpanels_at ?f ?s1))"
    using old by (intro kept_reveal_code) simp_all
  then have "kept ?f (live s) (detached s) (extract_store s)"
    unfolding e using old by (intro kept_strip) simp_all
  then show ?thesis by (simp add: kept_def new_from_def)
qed

theorem extraction_keeps_live_document_witness:
  "live (extract_store store_example) = live_example \<and>
   detached (extract_store store_example) =
     [ElementObj 8 ''ARTICLE'' [] []
        [ElementObj 11 ''DIV'' [(''role'', ''tabpanel'')] []
           [ElementObj 12 ''PRE'' [] [] [TextObj 13 ''x'']]],
      ElementObj 9 ''NAV'' [] [] [TextObj 10 ''menu'']] \<and>
   map_option erase (lookup 8 (extract_store store_example)) =
     map_option (\<lambda>root. clean (erase root)) (find_root_at store_example)"
proof -
  let ?root = "ElementObj 2 ''ARTICLE'' [] []
     [ElementObj 3 ''NAV'' [] [] [TextObj 4 ''menu''],
      ElementObj 5 ''DIV'' [(''role'', ''tabpanel''), (''aria-hidden'', ''true'')] []
        [ElementObj 6 ''PRE'' [] [] [TextObj 7 ''x'']]]"
  let ?s1 = "\<lparr>live = live_example, detached =
     [ElementObj 8 ''ARTICLE'' [] []
        [ElementObj 9 ''NAV'' [] [] [TextObj 10 ''menu''],
         ElementObj 11 ''DIV'' [(''role'', ''tabpanel''), (''aria-hidden'', ''true'')] []
           [ElementObj 12 ''PRE'' [] [] [TextObj 13 ''x'']]]]\<rparr>"
  let ?s2 = "\<lparr>live = live_example, detached =
     [ElementObj 8 ''ARTICLE'' [] []
        [ElementObj 9 ''NAV'' [] [] [TextObj 10 ''menu''],
         ElementObj 11 ''DIV'' [(''role'', ''tabpanel'')] []
           [ElementObj 12 ''PRE'' [] [] [TextObj 13 ''x'']]]]\<rparr>"
  let ?s4 = "\<lparr>live = live_example, detached =
     [ElementObj 8 ''ARTICLE'' [] []
        [ElementObj 11 ''DIV'' [(''role'', ''tabpanel'')] []
           [ElementObj 12 ''PRE'' [] [] [TextObj 13 ''x'']]],
      ElementObj 9 ''NAV'' [] [] [TextObj 10 ''menu'']]\<rparr>"
  have r: "find_root_at store_example = Some ?root" by code_simp
  have c: "cloneNode_at ?root store_example = (8, ?s1)" by code_simp
  have t: "reveal_tabpanels_at 8 ?s1 = ?s2" by code_simp
  have h: "reveal_code_at 8 ?s2 = ?s2" by code_simp
  have p: "strip_at 8 ?s2 = ?s4" by code_simp
  have e: "extract_store store_example = ?s4" by (simp add: extract_store_def r c t h p)
  have v: "map_option erase (lookup 8 ?s4) = Some (clean (erase ?root))" by code_simp
  show ?thesis using extraction_keeps_live_document[of store_example] e r v by simp
qed

subsection \<open>C9\<close>

text \<open>
  C9.  The runs of newlines are collapsed in the whole joined text, inside the fences
  too: for a \<open>pre\<close> block the walk is called on, whose trimmed text holds a run of three
  or more newlines, the result holds between the fences the text with its runs collapsed,
  which differs from the trimmed text; the trimmed text itself occurs nowhere in the
  processed text.
\<close>

theorem code_block_runs_collapsed:
  assumes "find_root (document (pg::page)) = Some root"
    and "page_lines (document pg) root = xs @ walk ptag idx node @ ys"
    and "tag_of node = ''pre''"
    and "sublist [nl, nl, nl] (pre_code node)"
  shows "\<exists>body. extractPageText pg = ''Source: '' @ location_href pg @ [nl, nl] @ body \<and>
           sublist (''```'' @ pre_lang node @ [nl] @ replace_nl3 (pre_code node) @ [nl] @ ''```'') body \<and>
           replace_nl3 (pre_code node) \<noteq> pre_code node \<and>
           \<not> sublist [nl, nl, nl] (replace_nl3 (pre_code node)) \<and>
           \<not> sublist (pre_code node) body"
proof (intro exI conjI)
  let ?body = "post (page_lines (document pg) root)"
  show "extractPageText pg = ''Source: '' @ location_href pg @ [nl, nl] @ ?body"
    using assms(1) by (rule extract_root)
  show "sublist (''```'' @ pre_lang node @ [nl] @ replace_nl3 (pre_code node) @ [nl] @ ''```'') ?body"
    unfolding assms(2) using assms(3) by (rule pre_fenced_in_post)
  show "replace_nl3 (pre_code node) \<noteq> pre_code node"
    using assms(4) by (rule replace_nl3_changes)
  show "\<not> sublist [nl, nl, nl] (replace_nl3 (pre_code node))"
    by (rule replace_nl3_no_run)
  show "\<not> sublist (pre_code node) ?body"
  proof
    assume "sublist (pre_code node) ?body"
    then have "sublist [nl, nl, nl] ?body"
      using assms(4) by (meson sublist_order.order_trans)
    then show False using post_no_run by blast
  qed
qed

theorem code_block_runs_collapsed_witness:
  "pre_code spaced_pre = ''a();\<newline>\<newline>\<newline>\<newline>b();'' \<and>
   extractPageText page_spaced_code =
     ''Source: https://example.com/docs\<newline>\<newline>```js\<newline>a();\<newline>\<newline>b();\<newline>```'' \<and>
   replace_nl3 (pre_code spaced_pre) \<noteq> pre_code spaced_pre"
proof -
  let ?root = "Element ''MAIN'' [] [] [spaced_pre]"
  have h1: "find_root (document page_spaced_code) = Some ?root" by code_simp
  have h2: "page_lines (document page_spaced_code) ?root = [] @ walk ''main'' 0 spaced_pre @ []"
    by code_simp
  have h3: "tag_of spaced_pre = ''pre''" by code_simp
  have c: "pre_code spaced_pre = ''a();\<newline>\<newline>\<newline>\<newline>b();''" by code_simp
  have h4: "sublist [nl, nl, nl] (pre_code spaced_pre)" unfolding c by code_simp
  have e: "extractPageText page_spaced_code =
     ''Source: https://example.com/docs\<newline>\<newline>```js\<newline>a();\<newline>\<newline>b();\<newline>```''"
    by code_simp
  from code_block_runs_collapsed[OF h1 h2 h3 h4] c e show ?thesis by blast
qed

subsection \<open>C10\<close>

text \<open>
  C10, as stated, fails: the runs of newlines are collapsed in the title line too, and an
  empty title leaves a line that is only \<open>#\<close> when nothing follows it.
\<close>

theorem title_line_counterexample:
  "find_title (document page_title_runs) =
     Some (Element ''H1'' [] []
             [Element ''SPAN'' [] [] [Text ''A''], Text ''\<newline>\<newline>\<newline>'',
              Element ''SPAN'' [] [] [Text ''B'']]) \<and>
   trim (textContent (Element ''H1'' [] []
             [Element ''SPAN'' [] [] [Text ''A''], Text ''\<newline>\<newline>\<newline>'',
              Element ''SPAN'' [] [] [Text ''B'']])) = ''A\<newline>\<newline>\<newline>B'' \<and>
   extractPageText page_title_runs =
     ''Source: https://example.com/docs\<newline>\<newline># A\<newline>\<newline>B\<newline>\<newline>Body'' \<and>
   \<not> sublist ''# A\<newline>\<newline>\<newline>B'' (extractPageText page_title_runs) \<and>
   extractPageText page_title_empty = ''Source: https://example.com/docs\<newline>\<newline>#'' \<and>
   \<not> sublist ''# '' (extractPageText page_title_empty)"
  by code_simp

text \<open>
  C10, amended.  The title is looked up in the document, not in the clone.  For every page
  with a content root and an \<open>h1\<close> element somewhere in the document, the title element is
  the first \<open>h1\<close> that lies below an \<open>article\<close> element (the first one below the first
  \<open>article\<close> that holds one); when there is none, the first \<open>h1\<close> that lies below a \<open>main\<close>
  element; when there is none either, the first \<open>h1\<close> of the document.  This holds also
  when the content root holds no \<open>h1\<close> (the title element then lies outside the root) and
  when the strip phase removes the \<open>h1\<close> from the clone.  The first two fragments are \<open># \<close>
  with the trimmed text of the title element and an empty fragment; when the trimmed text
  is not empty, the result begins with the \<open>Source: \<close> line followed by \<open># \<close> and the
  trimmed text with its runs of three or more newlines collapsed to two.
\<close>

theorem title_from_document:
  assumes "find_root (document (pg::page)) = Some root"
    and "\<exists>e\<in>set (doc_elements (document pg)). tag_of e = ''h1''"
  shows "\<exists>titleEl.
           first_of (if h1s_below ''article'' (document pg) \<noteq> [] then h1s_below ''article'' (document pg)
                     else if h1s_below ''main'' (document pg) \<noteq> [] then h1s_below ''main'' (document pg)
                     else filter (\<lambda>e. tag_of e = ''h1'') (doc_elements (document pg))) = Some titleEl \<and>
           find_title (document pg) = Some titleEl \<and>
           ((\<forall>e\<in>set (root # descendants root). tag_of e \<noteq> ''h1'') \<longrightarrow>
              titleEl \<notin> set (root # descendants root)) \<and>
           page_lines (document pg) root =
             (''# '' @ trim (textContent titleEl)) # [] #
             walk_children (tag_of (clean root)) 0 (childNodes (clean root)) \<and>
           extractPageText pg =
             ''Source: '' @ location_href pg @ [nl, nl] @ post (page_lines (document pg) root) \<and>
           (trim (textContent titleEl) \<noteq> [] \<longrightarrow>
              prefix (''Source: '' @ location_href pg @ [nl, nl] @ ''# '' @
                      replace_nl3 (trim (textContent titleEl)))
                (extractPageText pg))"
proof -
  obtain t where t: "find_title (document pg) = Some t" "t \<in> set (doc_elements (document pg))"
    "tag_of t = ''h1''"
    using find_title_Some[OF assms(2)] by blast
  have f: "first_of (if h1s_below ''article'' (document pg) \<noteq> [] then h1s_below ''article'' (document pg)
                     else if h1s_below ''main'' (document pg) \<noteq> [] then h1s_below ''main'' (document pg)
                     else filter (\<lambda>e. tag_of e = ''h1'') (doc_elements (document pg))) = Some t"
    using t(1) by (simp only: find_title_first)
  have out: "(\<forall>e\<in>set (root # descendants root). tag_of e \<noteq> ''h1'') \<longrightarrow>
               t \<notin> set (root # descendants root)"
    using t(3) by blast
  have p: "page_lines (document pg) root =
             (''# '' @ trim (textContent t)) # [] #
             walk_children (tag_of (clean root)) 0 (childNodes (clean root))"
    using t(1) by (simp add: page_lines_def title_lines_def)
  have e: "extractPageText pg =
             ''Source: '' @ location_href pg @ [nl, nl] @ post (page_lines (document pg) root)"
    using assms(1) by (rule extract_root)
  have "prefix (''Source: '' @ location_href pg @ [nl, nl] @ ''# '' @ replace_nl3 (trim (textContent t)))
          (extractPageText pg)" if h: "trim (textContent t) \<noteq> []"
  proof -
    have "prefix (''# '' @ replace_nl3 (trim (textContent t))) (post (page_lines (document pg) root))"
      unfolding p using h by (intro title_line_prefix[of _ "textContent t"]) simp_all
    then have "prefix ((''Source: '' @ location_href pg @ [nl, nl]) @ ''# '' @ replace_nl3 (trim (textContent t)))
                 ((''Source: '' @ location_href pg @ [nl, nl]) @ post (page_lines (document pg) root))"
      by (simp only: same_prefix_prefix)
    then show ?thesis by (simp only: e append_assoc)
  qed
  then show ?thesis using t(1) f out p e by blast
qed

theorem title_from_document_witness:
  "find_title (document page_two_titles) = Some (Element ''H1'' [] [] [Text ''Second'']) \<and>
   extractPageText page_two_titles =
     ''Source: https://example.com/docs\<newline>\<newline># Second\<newline>\<newline>Body'' \<and>
   find_title (document page_title_in_header) = Some (Element ''H1'' [] [] [Text ''Guide'']) \<and>
   extractPageText page_title_in_header =
     ''Source: https://example.com/docs\<newline>\<newline># Guide\<newline>\<newline>Body'' \<and>
   find_title (document page_title_outside) = Some (Element ''H1'' [] [] [Text '' Guide '']) \<and>
   extractPageText page_title_outside =
     ''Source: https://example.com/docs\<newline>\<newline># Guide\<newline>\<newline>Body''"
proof -
  let ?r1 = "Element ''ARTICLE'' [] [] [Element ''P'' [] [] [Text ''Body'']]"
  let ?r2 = "Element ''ARTICLE'' [] []
        [Element ''HEADER'' [] [] [Element ''H1'' [] [] [Text ''Guide'']],
         Element ''P'' [] [] [Text ''Body'']]"
  have a1: "find_root (document page_two_titles) = Some ?r1" by code_simp
  have a2: "\<exists>e\<in>set (doc_elements (document page_two_titles)). tag_of e = ''h1''" by code_simp
  have a3: "first_of (if h1s_below ''article'' (document page_two_titles) \<noteq> []
                      then h1s_below ''article'' (document page_two_titles)
                      else if h1s_below ''main'' (document page_two_titles) \<noteq> []
                      then h1s_below ''main'' (document page_two_titles)
                      else filter (\<lambda>e. tag_of e = ''h1'') (doc_elements (document page_two_titles))) =
            Some (Element ''H1'' [] [] [Text ''Second''])" by code_simp
  have a4: "extractPageText page_two_titles =
     ''Source: https://example.com/docs\<newline>\<newline># Second\<newline>\<newline>Body''" by code_simp
  have b1: "find_root (document page_title_in_header) = Some ?r2" by code_simp
  have b2: "\<exists>e\<in>set (doc_elements (document page_title_in_header)). tag_of e = ''h1''" by code_simp
  have b3: "first_of (if h1s_below ''article'' (document page_title_in_header) \<noteq> []
                      then h1s_below ''article'' (document page_title_in_header)
                      else if h1s_below ''main'' (document page_title_in_header) \<noteq> []
                      then h1s_below ''main'' (document page_title_in_header)
                      else filter (\<lambda>e. tag_of e = ''h1'') (doc_elements (document page_title_in_header))) =
            Some (Element ''H1'' [] [] [Text ''Guide''])" by code_simp
  have b4: "extractPageText page_title_in_header =
     ''Source: https://example.com/docs\<newline>\<newline># Guide\<newline>\<newline>Body''" by code_simp
  have c1: "find_root (document page_title_outside) = Some ?r1" by code_simp
  have c2: "\<exists>e\<in>set (doc_elements (document page_title_outside)). tag_of e = ''h1''" by code_simp
  have c3: "first_of (if h1s_below ''article'' (document page_title_outside) \<noteq> []
                      then h1s_below ''article'' (document page_title_outside)
                      else if h1s_below ''main'' (document page_title_outside) \<noteq> []
                      then h1s_below ''main'' (document page_title_outside)
                      else filter (\<lambda>e. tag_of e = ''h1'') (doc_elements (document page_title_outside))) =
            Some (Element ''H1'' [] [] [Text '' Guide ''])" by code_simp
  have c4: "extractPageText page_title_outside =
     ''Source: https://example.com/docs\<newline>\<newline># Guide\<newline>\<newline>Body''" by code_simp
  have "find_title (document page_two_titles) = Some (Element ''H1'' [] [] [Text ''Second''])"
    using title_from_document[OF a1 a2] a3 by auto
  moreover have "find_title (document page_title_in_header) = Some (Element ''H1'' [] [] [Text ''Guide''])"
    using title_from_document[OF b1 b2] b3 by auto
  moreover have "find_title (document page_title_outside) = Some (Element ''H1'' [] [] [Text '' Guide ''])"
    using title_from_document[OF c1 c2] c3 by auto
  ultimately show ?thesis using a4 b4 c4 by simp
qed

end
